theory Spec2Isabelle
  imports Main "HOL-Library.Word"
begin

section \<open>Strings and regular expressions of the host language\<close>

text \<open>
  The rule is TypeScript: a string is a sequence of UTF-16 code units, and all the
  rewriting is done by \<^verbatim>\<open>String.prototype.replace\<close> and \<^verbatim>\<open>String.prototype.match\<close> on
  regular expressions without the \<^verbatim>\<open>u\<close> flag, so patterns see code units.
\<close>

type_synonym jschar = "16 word"
type_synonym jsstring = "jschar list"

text \<open>A string literal of the source (ASCII only), as code units.\<close>

definition str :: "string \<Rightarrow> jsstring" where
  "str s = map of_char s"

text \<open>
  The two character classes of ECMAScript the patterns of the rule depend on:
  \<^verbatim>\<open>.\<close> matches every code unit that is not a LineTerminator, and \<^verbatim>\<open>\s\<close> matches
  WhiteSpace and LineTerminator.
\<close>

definition isLineTerminator :: "jschar \<Rightarrow> bool" where
  "isLineTerminator c = (c = 0x0A \<or> c = 0x0D \<or> c = 0x2028 \<or> c = 0x2029)"

definition isWhiteSpace :: "jschar \<Rightarrow> bool" where
  "isWhiteSpace c =
     (c = 0x09 \<or> c = 0x0B \<or> c = 0x0C \<or> c = 0x20 \<or> c = 0xA0 \<or> c = 0xFEFF \<or> c = 0x1680
      \<or> (0x2000 \<le> c \<and> c \<le> 0x200A) \<or> c = 0x202F \<or> c = 0x205F \<or> c = 0x3000
      \<or> isLineTerminator c)"

text \<open>
  The pattern language, as far as the rule uses it: a one-character test, the
  assertions \<^verbatim>\<open>^\<close> and \<^verbatim>\<open>$\<close>, sequence, alternative, the greedy \<^verbatim>\<open>*\<close>, the lazy \<^verbatim>\<open>*?\<close>,
  \<^verbatim>\<open>?\<close>, a capturing group with its number, and the two lookaheads.
\<close>

datatype regex =
    Class "jschar \<Rightarrow> bool"
  | Bol
  | Eol
  | Eps
  | Seq regex regex
  | Alt regex regex
  | Star regex
  | LazyStar regex
  | Opt regex
  | Group nat regex
  | Ahead regex
  | NotAhead regex

text \<open>
  A matcher state: the captures so far, the input before the current position
  (reversed, so that its head is the previous code unit) and the input from the
  current position on.
\<close>

type_synonym captures = "nat \<rightharpoonup> jsstring"
type_synonym mstate = "captures \<times> jsstring \<times> jsstring"

fun remaining :: "mstate \<Rightarrow> nat" where
  "remaining (cs, b, r) = length r"

text \<open>
  Backtracking is the list of all ways a pattern can match from a state, in the order
  the backtracking matcher of ECMAScript tries them; the match it reports is the head
  of the list. A quantifier drops an iteration that consumes nothing, as RepeatMatcher
  does, so the recursion is bounded by the length of the remaining input.
\<close>

fun repeat :: "bool \<Rightarrow> (mstate \<Rightarrow> mstate list) \<Rightarrow> nat \<Rightarrow> mstate \<Rightarrow> mstate list" where
  "repeat greedy f 0 st = [st]"
| "repeat greedy f (Suc n) st =
     (let more = concat (map (repeat greedy f n) (filter (\<lambda>st'. remaining st' < remaining st) (f st)))
      in if greedy then more @ [st] else st # more)"

fun m :: "regex \<Rightarrow> bool \<Rightarrow> mstate \<Rightarrow> mstate list" where
  "m (Class P) ml (cs, b, r) =
     (case r of [] \<Rightarrow> [] | x # xs \<Rightarrow> if P x then [(cs, x # b, xs)] else [])"
| "m Bol ml (cs, b, r) =
     (if b = [] \<or> (ml \<and> isLineTerminator (hd b)) then [(cs, b, r)] else [])"
| "m Eol ml (cs, b, r) =
     (if r = [] \<or> (ml \<and> isLineTerminator (hd r)) then [(cs, b, r)] else [])"
| "m Eps ml st = [st]"
| "m (Seq p q) ml st = concat (map (m q ml) (m p ml st))"
| "m (Alt p q) ml st = m p ml st @ m q ml st"
| "m (Star p) ml st = repeat True (m p ml) (remaining st) st"
| "m (LazyStar p) ml st = repeat False (m p ml) (remaining st) st"
| "m (Opt p) ml st = filter (\<lambda>st'. remaining st' < remaining st) (m p ml st) @ [st]"
| "m (Group i p) ml (cs, b, r) =
     map (\<lambda>(cs', b', r'). (cs'(i \<mapsto> rev (take (length b' - length b) b')), b', r'))
       (m p ml (cs, b, r))"
| "m (Ahead p) ml (cs, b, r) =
     (case m p ml (cs, b, r) of [] \<Rightarrow> [] | (cs', b', r') # rest \<Rightarrow> [(cs', b, r)])"
| "m (NotAhead p) ml (cs, b, r) = (if m p ml (cs, b, r) = [] then [(cs, b, r)] else [])"

definition Plus :: "regex \<Rightarrow> regex" where
  "Plus p = Seq p (Star p)"

fun seqs :: "regex list \<Rightarrow> regex" where
  "seqs [] = Eps"
| "seqs [p] = p"
| "seqs (p # ps) = Seq p (seqs ps)"

text \<open>
  A replacement string such as \<^verbatim>\<open>'$1\n\n'\<close> is a list of literal pieces and group
  references; a group that did not take part in the match stands for the empty string.
\<close>

datatype part = Lit jsstring | Ref nat

fun expand :: "part list \<Rightarrow> captures \<Rightarrow> jsstring" where
  "expand [] cs = []"
| "expand (Lit s # ps) cs = s @ expand ps cs"
| "expand (Ref i # ps) cs = (case cs i of None \<Rightarrow> [] | Some s \<Rightarrow> s) @ expand ps cs"

record RegExp =
  source :: regex
  global :: bool
  multiline :: bool

text \<open>
  \<^verbatim>\<open>replace\<close> without the \<^verbatim>\<open>g\<close> flag rewrites the leftmost match only: the start
  positions are tried from left to right.
\<close>

fun replaceFirst :: "regex \<Rightarrow> bool \<Rightarrow> part list \<Rightarrow> jsstring \<Rightarrow> jsstring \<Rightarrow> jsstring" where
  "replaceFirst re ml t b r =
     (case m re ml (Map.empty, b, r) of
        (cs, b', r') # rest \<Rightarrow> expand t cs @ r'
      | [] \<Rightarrow> (case r of [] \<Rightarrow> [] | x # xs \<Rightarrow> x # replaceFirst re ml t (x # b) xs))"

text \<open>
  With the \<^verbatim>\<open>g\<close> flag the search goes on behind each match; behind an empty match it
  moves on by one code unit.
\<close>

function replaceAll :: "regex \<Rightarrow> bool \<Rightarrow> part list \<Rightarrow> jsstring \<Rightarrow> jsstring \<Rightarrow> jsstring" where
  "replaceAll re ml t b r =
     (case m re ml (Map.empty, b, r) of
        (cs, b', r') # rest \<Rightarrow>
          if length r' < length r then expand t cs @ replaceAll re ml t b' r'
          else expand t cs @ (case r of [] \<Rightarrow> [] | x # xs \<Rightarrow> x # replaceAll re ml t (x # b) xs)
      | [] \<Rightarrow> (case r of [] \<Rightarrow> [] | x # xs \<Rightarrow> x # replaceAll re ml t (x # b) xs))"
  by pat_completeness auto
termination
  by (relation "measure (\<lambda>(re, ml, t, b, r). length r)") auto

fun test :: "regex \<Rightarrow> bool \<Rightarrow> jsstring \<Rightarrow> jsstring \<Rightarrow> bool" where
  "test re ml b r =
     (m re ml (Map.empty, b, r) \<noteq> []
      \<or> (case r of [] \<Rightarrow> False | x # xs \<Rightarrow> test re ml (x # b) xs))"

definition replace :: "jsstring \<Rightarrow> RegExp \<Rightarrow> part list \<Rightarrow> jsstring" where
  "replace text re t =
     (if global re then replaceAll (source re) (multiline re) t [] text
      else replaceFirst (source re) (multiline re) t [] text)"

text \<open>\<^verbatim>\<open>text.match(re)\<close> in a condition: null (false) when the pattern matches nowhere.\<close>

definition match :: "jsstring \<Rightarrow> RegExp \<Rightarrow> bool" where
  "match text re = test (source re) (multiline re) [] text"

section \<open>The patterns of the rule\<close>

definition hash :: regex where "hash = Class (\<lambda>c. c = 0x23)"
definition nl :: regex where "nl = Class (\<lambda>c. c = 0x0A)"
definition dot :: regex where "dot = Class (\<lambda>c. \<not> isLineTerminator c)"
definition ws :: regex where "ws = Class isWhiteSpace"
definition dash :: regex where "dash = Class (\<lambda>c. c = 0x2D)"

text \<open>\<^verbatim>\<open>#+\s.*\<close>, the heading pattern every rewrite of the rule is built around.\<close>

definition heading :: regex where
  "heading = Seq (Plus hash) (Seq ws (Star dot))"

definition NL :: jsstring where
  "NL = [0x0A]"

text \<open>Line 30 and 35: \<^verbatim>\<open>/(^#+\s.*)\n+/gm\<close>.\<close>

definition afterHeading :: RegExp where
  "afterHeading = \<lparr>source = Seq (Group 1 (Seq Bol heading)) (Plus nl), global = True, multiline = True\<rparr>"

text \<open>Line 31 and 34: \<^verbatim>\<open>/\n+(#+\s.*)/g\<close>.\<close>

definition beforeHeading :: RegExp where
  "beforeHeading = \<lparr>source = Seq (Plus nl) (Group 1 heading), global = True, multiline = False\<rparr>"

text \<open>Line 33: \<^verbatim>\<open>/^(#+\s.*)/gm\<close>.\<close>

definition headingLine :: RegExp where
  "headingLine = \<lparr>source = Seq Bol (Group 1 heading), global = True, multiline = True\<rparr>"

text \<open>Line 38 and 39: \<^verbatim>\<open>/(#+\s.*)\n\n+(#+\s.*)/gm\<close>.\<close>

definition betweenHeadings :: RegExp where
  "betweenHeadings =
     \<lparr>source = seqs [Group 1 heading, nl, Plus nl, Group 2 heading], global = True, multiline = True\<rparr>"

text \<open>Line 42: \<^verbatim>\<open>/^\n+(#+\s.*)/\<close>.\<close>

definition beforeFirstHeading :: RegExp where
  "beforeFirstHeading =
     \<lparr>source = seqs [Bol, Plus nl, Group 1 heading], global = False, multiline = False\<rparr>"

text \<open>Line 43: \<^verbatim>\<open>/(#+\s.*)\n+$/\<close>.\<close>

definition afterLastHeading :: RegExp where
  "afterLastHeading =
     \<lparr>source = seqs [Group 1 heading, Plus nl, Eol], global = False, multiline = False\<rparr>"

section \<open>Generic facts about the matcher\<close>

text \<open>A match only moves forward in the input: what it consumed is a prefix of what was left.\<close>

definition extends :: "mstate \<Rightarrow> mstate \<Rightarrow> bool" where
  "extends st st' = (\<exists>u. snd (snd st) = u @ snd (snd st') \<and> fst (snd st') = rev u @ fst (snd st))"

lemma extends_refl: "extends st st"
  by (simp add: extends_def)

lemma extends_trans: "extends a b \<Longrightarrow> extends b c \<Longrightarrow> extends a c"
  by (auto simp: extends_def)

lemma extends_triple:
  "extends (cs, b, r) (cs', b', r') = (\<exists>u. r = u @ r' \<and> b' = rev u @ b)"
  by (simp add: extends_def)

lemma repeat_extends:
  assumes f: "\<And>s s'. s' \<in> set (f s) \<Longrightarrow> extends s s'"
  shows "st' \<in> set (repeat g f n st) \<Longrightarrow> extends st st'"
proof (induction n arbitrary: st)
  case 0
  then show ?case by (simp add: extends_refl)
next
  case (Suc n)
  from Suc.prems consider "st' = st"
    | s where "s \<in> set (f st)" "st' \<in> set (repeat g f n s)"
    by (auto simp: Let_def split: if_splits)
  then show ?case
  proof cases
    case 1
    then show ?thesis by (simp add: extends_refl)
  next
    case 2
    then show ?thesis using f Suc.IH extends_trans by blast
  qed
qed

lemma m_extends: "st' \<in> set (m p ml st) \<Longrightarrow> extends st st'"
proof (induction p arbitrary: st st')
  case (Class P)
  then show ?case
    by (cases st) (auto simp: extends_triple split: list.splits if_splits)
next
  case Bol
  then show ?case by (cases st) (auto simp: extends_refl split: if_splits)
next
  case Eol
  then show ?case by (cases st) (auto simp: extends_refl split: if_splits)
next
  case Eps
  then show ?case by (simp add: extends_refl)
next
  case (Seq p q)
  then obtain s where "s \<in> set (m p ml st)" "st' \<in> set (m q ml s)"
    by auto
  then show ?case using Seq.IH extends_trans by blast
next
  case (Alt p q)
  from Alt.prems have "st' \<in> set (m p ml st) \<or> st' \<in> set (m q ml st)"
    by simp
  then show ?case using Alt.IH by blast
next
  case (Star p)
  from Star.prems have "st' \<in> set (repeat True (m p ml) (remaining st) st)"
    by simp
  then show ?case using repeat_extends[of "m p ml"] Star.IH by blast
next
  case (LazyStar p)
  from LazyStar.prems have "st' \<in> set (repeat False (m p ml) (remaining st) st)"
    by simp
  then show ?case using repeat_extends[of "m p ml"] LazyStar.IH by blast
next
  case (Opt p)
  from Opt.prems have "st' \<in> set (m p ml st) \<or> st' = st"
    by auto
  then show ?case using Opt.IH extends_refl by blast
next
  case (Group i p)
  then show ?case
    by (cases st) (fastforce simp: extends_triple)
next
  case (Ahead p)
  then show ?case
    by (cases st) (auto simp: extends_triple split: list.splits)
next
  case (NotAhead p)
  then show ?case by (cases st) (auto simp: extends_refl split: if_splits)
qed


text \<open>Patterns without a capturing group leave the captures alone.\<close>

fun nogroups :: "regex \<Rightarrow> bool" where
  "nogroups (Group i p) = False"
| "nogroups (Seq p q) = (nogroups p \<and> nogroups q)"
| "nogroups (Alt p q) = (nogroups p \<and> nogroups q)"
| "nogroups (Star p) = nogroups p"
| "nogroups (LazyStar p) = nogroups p"
| "nogroups (Opt p) = nogroups p"
| "nogroups (Ahead p) = nogroups p"
| "nogroups (NotAhead p) = nogroups p"
| "nogroups p = True"

lemma repeat_caps:
  assumes f: "\<And>s s'. s' \<in> set (f s) \<Longrightarrow> fst s' = fst s"
  shows "st' \<in> set (repeat g f n st) \<Longrightarrow> fst st' = fst st"
proof (induction n arbitrary: st)
  case 0
  then show ?case by simp
next
  case (Suc n)
  from Suc.prems consider "st' = st"
    | s where "s \<in> set (f st)" "st' \<in> set (repeat g f n s)"
    by (auto simp: Let_def split: if_splits)
  then show ?case
  proof cases
    case 1
    then show ?thesis by simp
  next
    case 2
    from f[OF 2(1)] Suc.IH[OF 2(2)] show ?thesis by simp
  qed
qed

lemma m_caps: "nogroups p \<Longrightarrow> st' \<in> set (m p ml st) \<Longrightarrow> fst st' = fst st"
proof (induction p arbitrary: st st')
  case (Class P)
  then show ?case
    by (cases st) (auto split: list.splits if_splits)
next
  case Bol
  then show ?case by (cases st) (auto split: if_splits)
next
  case Eol
  then show ?case by (cases st) (auto split: if_splits)
next
  case Eps
  then show ?case by simp
next
  case (Seq p q)
  then obtain s where s: "s \<in> set (m p ml st)" "st' \<in> set (m q ml s)"
    by auto
  from Seq.prems(1) have "nogroups p" "nogroups q" by simp_all
  from Seq.IH(1)[OF this(1) s(1)] Seq.IH(2)[OF this(2) s(2)] show ?case by simp
next
  case (Alt p q)
  from Alt.prems have "st' \<in> set (m p ml st) \<or> st' \<in> set (m q ml st)"
    by simp
  moreover from Alt.prems(1) have "nogroups p" "nogroups q" by simp_all
  ultimately show ?case using Alt.IH(1)[of st' st] Alt.IH(2)[of st' st] by blast
next
  case (Star p)
  from Star.prems have "st' \<in> set (repeat True (m p ml) (remaining st) st)" "nogroups p"
    by simp_all
  then show ?case using repeat_caps[of "m p ml"] Star.IH by blast
next
  case (LazyStar p)
  from LazyStar.prems have "st' \<in> set (repeat False (m p ml) (remaining st) st)" "nogroups p"
    by simp_all
  then show ?case using repeat_caps[of "m p ml"] LazyStar.IH by blast
next
  case (Opt p)
  from Opt.prems have "st' \<in> set (m p ml st) \<or> st' = st" "nogroups p"
    by auto
  then show ?case using Opt.IH by blast
next
  case (Group i p)
  then show ?case by simp
next
  case (Ahead p)
  obtain cs b r where st: "st = (cs, b, r)" by (cases st)
  show ?case
  proof (cases "m p ml (cs, b, r)")
    case Nil
    with Ahead.prems st show ?thesis by simp
  next
    case (Cons s rest)
    obtain cs1 b1 r1 where s: "s = (cs1, b1, r1)" by (cases s)
    from Cons s Ahead.prems st have "st' = (cs1, b, r)" by simp
    moreover from Cons st have "s \<in> set (m p ml st)" by simp
    then have "fst s = fst st" using Ahead.IH Ahead.prems(1) by simp
    ultimately show ?thesis using s st by simp
  qed
next
  case (NotAhead p)
  then show ?case by (cases st) (auto split: if_splits)
qed

lemma m_Group:
  assumes "(cs', b', r') \<in> set (m (Group i p) ml (cs, b, r))"
  shows "\<exists>cs'' u. (cs'', b', r') \<in> set (m p ml (cs, b, r)) \<and> r = u @ r' \<and> b' = rev u @ b
           \<and> cs' = cs''(i \<mapsto> u)"
proof -
  from assms obtain s where s: "s \<in> set (m p ml (cs, b, r))"
    and eq: "(cs', b', r') = (case s of (c, b1, r1) \<Rightarrow> (c(i \<mapsto> rev (take (length b1 - length b) b1)), b1, r1))"
    by (simp add: image_iff) blast
  obtain cs'' b'' r'' where s_eq: "s = (cs'', b'', r'')" by (cases s)
  from eq s_eq have same: "b'' = b'" "r'' = r'"
    and cs': "cs' = cs''(i \<mapsto> rev (take (length b' - length b) b'))"
    by simp_all
  from m_extends[OF s] s_eq same obtain u where u: "r = u @ r'" "b' = rev u @ b"
    by (auto simp: extends_triple)
  then have "rev (take (length b' - length b) b') = u"
    by simp
  with cs' have "cs' = cs''(i \<mapsto> u)" by simp
  moreover from s s_eq same have "(cs'', b', r') \<in> set (m p ml (cs, b, r))" by simp
  ultimately show ?thesis using u by (intro exI[of _ cs''] exI[of _ u]) simp
qed

lemma m_Class:
  "(cs', b', r') \<in> set (m (Class P) ml (cs, b, r)) \<longleftrightarrow>
     (\<exists>x. P x \<and> r = x # r' \<and> b' = x # b \<and> cs' = cs)"
  by (cases r) auto

lemma m_Plus_Class:
  assumes "(cs', b', r') \<in> set (m (Plus (Class P)) ml (cs, b, r))"
  shows "\<exists>u. u \<noteq> [] \<and> r = u @ r' \<and> b' = rev u @ b \<and> cs' = cs"
proof -
  from assms obtain s where s: "s \<in> set (m (Class P) ml (cs, b, r))"
    and st: "(cs', b', r') \<in> set (m (Star (Class P)) ml s)"
    by (auto simp: Plus_def)
  obtain cs1 b1 r1 where s_eq: "s = (cs1, b1, r1)" by (cases s)
  from s s_eq obtain x where x: "r = x # r1" "b1 = x # b" "cs1 = cs"
    by (auto simp: m_Class)
  from m_extends[OF st] s_eq obtain v where v: "r1 = v @ r'" "b' = rev v @ b1"
    by (auto simp: extends_triple)
  from m_caps[OF _ st] s_eq x have "cs' = cs" by simp
  with x v show ?thesis by (intro exI[of _ "x # v"]) simp
qed

lemma heading_nogroups: "nogroups heading"
  by (simp add: heading_def Plus_def hash_def ws_def dot_def)

lemma m_Group_heading:
  assumes "(cs', b', r') \<in> set (m (Group i heading) ml (cs, b, r))"
  shows "\<exists>u. r = u @ r' \<and> b' = rev u @ b \<and> cs' = cs(i \<mapsto> u)"
proof -
  from m_Group[OF assms] obtain cs'' u
    where *: "(cs'', b', r') \<in> set (m heading ml (cs, b, r))" "r = u @ r'" "b' = rev u @ b"
      "cs' = cs''(i \<mapsto> u)"
    by blast
  from m_caps[OF heading_nogroups *(1)] have "cs'' = cs" by simp
  with * show ?thesis by blast
qed


lemma m_Seq: "st' \<in> set (m (Seq p q) ml st) \<longleftrightarrow> (\<exists>s \<in> set (m p ml st). st' \<in> set (m q ml s))"
  by simp


lemma betweenHeadings_shrinks:
  assumes "(cs', b', r') \<in> set (m (source betweenHeadings) ml (cs, b, r))"
  shows "length (expand [Ref 1, Lit NL, Ref 2] cs') + length r' < length r"
proof -
  have src: "source betweenHeadings = Seq (Group 1 heading) (Seq nl (Seq (Plus nl) (Group 2 heading)))"
    by (simp add: betweenHeadings_def)
  from assms obtain s1 s2 s3
    where s1: "s1 \<in> set (m (Group 1 heading) ml (cs, b, r))"
      and s2: "s2 \<in> set (m nl ml s1)"
      and s3: "s3 \<in> set (m (Plus nl) ml s2)"
      and s4: "(cs', b', r') \<in> set (m (Group 2 heading) ml s3)"
    unfolding src m_Seq by blast
  obtain cs1 b1 r1 where e1: "s1 = (cs1, b1, r1)" by (cases s1)
  obtain cs2 b2 r2 where e2: "s2 = (cs2, b2, r2)" by (cases s2)
  obtain cs3 b3 r3 where e3: "s3 = (cs3, b3, r3)" by (cases s3)
  from m_Group_heading[OF s1[unfolded e1]] obtain u1
    where u1: "r = u1 @ r1" "cs1 = cs(1 \<mapsto> u1)" by blast
  from s2 e1 e2 obtain x where x: "r1 = x # r2" "cs2 = cs1"
    by (auto simp: nl_def m_Class)
  from m_Plus_Class[OF s3[unfolded e2 e3 nl_def]] obtain v
    where v: "v \<noteq> []" "r2 = v @ r3" "cs3 = cs2" by blast
  from m_Group_heading[OF s4[unfolded e3]] obtain u2
    where u2: "r3 = u2 @ r'" "cs' = cs3(2 \<mapsto> u2)" by blast
  from u1 x v u2 have "expand [Ref 1, Lit NL, Ref 2] cs' = u1 @ NL @ u2"
    by simp
  moreover from u1 x v u2 have "length r = length u1 + 1 + length v + length u2 + length r'"
    by simp
  moreover from v have "0 < length v" by simp
  ultimately show ?thesis by (simp add: NL_def)
qed



text \<open>The global replacement, one step at a time.\<close>

lemma replaceAll_nomatch:
  "m re ml (Map.empty, b, r) = [] \<Longrightarrow>
     replaceAll re ml t b r = (case r of [] \<Rightarrow> [] | x # xs \<Rightarrow> x # replaceAll re ml t (x # b) xs)"
  by (subst replaceAll.simps) simp

lemma replaceAll_match:
  "m re ml (Map.empty, b, r) = (cs, b', r') # rest \<Longrightarrow> length r' < length r \<Longrightarrow>
     replaceAll re ml t b r = expand t cs @ replaceAll re ml t b' r'"
  by (subst replaceAll.simps) simp

lemma replaceAll_empty_match:
  "m re ml (Map.empty, b, r) = (cs, b', r') # rest \<Longrightarrow> \<not> length r' < length r \<Longrightarrow>
     replaceAll re ml t b r =
       expand t cs @ (case r of [] \<Rightarrow> [] | x # xs \<Rightarrow> x # replaceAll re ml t (x # b) xs)"
  by (subst replaceAll.simps) simp

declare replaceAll.simps [simp del]

text \<open>How a global replacement changes the length, given how each match does.\<close>

lemma replaceAll_length_le:
  assumes shrink: "\<And>b r cs b' r'. (cs, b', r') \<in> set (m re ml (Map.empty, b, r))
                     \<Longrightarrow> length (expand t cs) + length r' < length r"
  shows "length (replaceAll re ml t b r) \<le> length r"
proof (induction "length r" arbitrary: b r rule: less_induct)
  case less
  show ?case
  proof (cases "m re ml (Map.empty, b, r)")
    case Nil
    show ?thesis
    proof (cases r)
      case Nil
      with \<open>m re ml (Map.empty, b, r) = []\<close> show ?thesis
        by (simp add: replaceAll_nomatch)
    next
      case (Cons x xs)
      with less[of xs "x # b"] \<open>m re ml (Map.empty, b, r) = []\<close> show ?thesis
        by (simp add: replaceAll_nomatch)
    qed
  next
    case (Cons st rest)
    obtain cs b' r' where st: "st = (cs, b', r')" by (cases st)
    from shrink[of cs b' r' b r] Cons st
    have lt: "length (expand t cs) + length r' < length r" by simp
    then have "length r' < length r" by simp
    with Cons st lt less[of r' b'] show ?thesis
      by (simp add: replaceAll_match)
  qed
qed

lemma replaceAll_length_less:
  assumes shrink: "\<And>b r cs b' r'. (cs, b', r') \<in> set (m re ml (Map.empty, b, r))
                     \<Longrightarrow> length (expand t cs) + length r' < length r"
  shows "test re ml b r \<Longrightarrow> length (replaceAll re ml t b r) < length r"
proof (induction r arbitrary: b)
  case Nil
  then obtain st rest where "m re ml (Map.empty, b, []) = st # rest"
    by (cases "m re ml (Map.empty, b, [])") simp_all
  moreover obtain cs b' r' where "st = (cs, b', r')" by (cases st)
  ultimately show ?case using shrink[of cs b' r' b "[]"] by simp
next
  case (Cons x xs)
  show ?case
  proof (cases "m re ml (Map.empty, b, x # xs)")
    case Nil
    with Cons.prems have "test re ml (x # b) xs" by simp
    from Cons.IH[OF this] Nil show ?thesis
      by (simp add: replaceAll_nomatch)
  next
    case (Cons st rest)
    obtain cs b' r' where st: "st = (cs, b', r')" by (cases st)
    from shrink[of cs b' r' b "x # xs"] Cons st
    have lt: "length (expand t cs) + length r' < length (x # xs)" by simp
    then have "length r' < length (x # xs)" by simp
    moreover have "length (replaceAll re ml t b' r') \<le> length r'"
      by (rule replaceAll_length_le) (rule shrink)
    ultimately show ?thesis using Cons st lt
      by (simp add: replaceAll_match)
  qed
qed

section \<open>The rule\<close>

record options =
  bottom :: bool
  emptyLineAfterYaml :: bool
  emptyLineInBlankSections :: bool

text \<open>The fields' initialisers of class HeadingBlankLinesOptions (lines 7 to 11).\<close>

definition defaultOptions :: options where
  "defaultOptions = \<lparr>bottom = True, emptyLineAfterYaml = True, emptyLineInBlankSections = True\<rparr>"

text \<open>
  The loop of lines 38 to 40. Each round makes the text shorter
  (\<open>betweenHeadings_shrinks\<close>), which is the termination argument.
\<close>

function removeBlankLinesBetweenHeadings :: "jsstring \<Rightarrow> jsstring" where
  "removeBlankLinesBetweenHeadings text =
     (if match text betweenHeadings
      then removeBlankLinesBetweenHeadings (replace text betweenHeadings [Ref 1, Lit NL, Ref 2])
      else text)"
  by pat_completeness auto
termination
proof (relation "measure length")
  show "wf (measure length)" by simp
next
  fix s :: jsstring
  assume "match s betweenHeadings"
  then have "test (source betweenHeadings) True [] s"
    by (simp add: match_def betweenHeadings_def)
  from replaceAll_length_less[OF betweenHeadings_shrinks this]
  show "(replace s betweenHeadings [Ref 1, Lit NL, Ref 2], s) \<in> measure length"
    by (simp add: replace_def betweenHeadings_def)
qed

declare removeBlankLinesBetweenHeadings.simps [simp del]


text \<open>
  Modelled from the spec: the pattern \<^verbatim>\<open>yamlRegex\<close> of \<^verbatim>\<open>src/utils/regex.ts\<close>, which is
  not among the sources. The frontmatter is a block delimited by a \<^verbatim>\<open>---\<close> line at the
  start of the document and the next bare \<^verbatim>\<open>---\<close> line:
  \<^verbatim>\<open>/^---\n((?:(((?!---)(?:.|\n)*?)\n)?))---(?=\n|$)/\<close>. It has three capturing groups, as
  the reference \<^verbatim>\<open>$5\<close> to the heading in line 46 needs.
\<close>

definition yamlRegex :: RegExp where
  "yamlRegex =
     \<lparr>source = seqs [Bol, dash, dash, dash, nl,
        Group 1 (Opt (Group 2 (Seq
          (Group 3 (Seq (NotAhead (seqs [dash, dash, dash])) (LazyStar (Alt dot nl)))) nl))),
        dash, dash, dash, Ahead (Alt nl Eol)],
      global = False, multiline = False\<rparr>"

text \<open>
  Line 46 builds its pattern from the source text of \<^verbatim>\<open>yamlRegex\<close> inside one more pair of
  parentheses, so the groups of \<^verbatim>\<open>yamlRegex\<close> move up by one.
\<close>

fun shift :: "nat \<Rightarrow> regex \<Rightarrow> regex" where
  "shift k (Group i p) = Group (i + k) (shift k p)"
| "shift k (Seq p q) = Seq (shift k p) (shift k q)"
| "shift k (Alt p q) = Alt (shift k p) (shift k q)"
| "shift k (Star p) = Star (shift k p)"
| "shift k (LazyStar p) = LazyStar (shift k p)"
| "shift k (Opt p) = Opt (shift k p)"
| "shift k (Ahead p) = Ahead (shift k p)"
| "shift k (NotAhead p) = NotAhead (shift k p)"
| "shift k p = p"

text \<open>Line 46: \<^verbatim>\<open>new RegExp('(' + yamlRegex.source + ')\\n+(#+\\s.*)')\<close>.\<close>

definition afterYaml :: RegExp where
  "afterYaml =
     \<lparr>source = seqs [Group 1 (shift 1 (source yamlRegex)), Plus nl, Group 5 heading],
      global = False, multiline = False\<rparr>"

text \<open>The function handed to \<^verbatim>\<open>ignoreListOfTypes\<close> (lines 28 to 50).\<close>

definition callback :: "options \<Rightarrow> jsstring \<Rightarrow> jsstring" where
  "callback options text0 =
     (let text =
        (if \<not> bottom options then
           (let text = replace text0 afterHeading [Ref 1, Lit NL];
                text = replace text beforeHeading [Lit NL, Lit NL, Ref 1]
            in text)
         else
           (let text = replace text0 headingLine [Lit NL, Lit NL, Ref 1, Lit NL, Lit NL];
                text = replace text beforeHeading [Lit NL, Lit NL, Ref 1];
                text = replace text afterHeading [Ref 1, Lit NL, Lit NL]
            in text));
          text = (if \<not> emptyLineInBlankSections options
                  then removeBlankLinesBetweenHeadings text else text);
          text = replace text beforeFirstHeading [Ref 1];
          text = replace text afterLastHeading [Ref 1];
          text = (if \<not> emptyLineAfterYaml options
                  then replace text afterYaml [Ref 1, Lit NL, Ref 5] else text)
      in text)"

text \<open>
  \<^verbatim>\<open>ignoreListOfTypes\<close> and the table \<^verbatim>\<open>IgnoreTypes\<close> of \<^verbatim>\<open>src/utils/ignore-types.ts\<close> are
  not among the sources: the masking engine is a parameter of the rule, and the
  theorems below say what they assume of it.
\<close>

datatype IgnoreType = code | yaml | link | wikiLink | tag

type_synonym ignoreListOfTypes = "IgnoreType list \<Rightarrow> jsstring \<Rightarrow> (jsstring \<Rightarrow> jsstring) \<Rightarrow> jsstring"

definition apply_rule :: "ignoreListOfTypes \<Rightarrow> jsstring \<Rightarrow> options \<Rightarrow> jsstring" where
  "apply_rule ignoreListOfTypes text options =
     ignoreListOfTypes [code, yaml, link, wikiLink, tag] text (callback options)"


text \<open>
  Modelled from the spec: what the masking engine does on a text in which it finds no
  protected region (section 4.1: a type with no matches contributes zero spans;
  section 4.2: the callback runs on the masked text and its result goes back through
  the restoration). Nothing is masked and nothing restored, so the callback's result
  on the text is the result.
\<close>

definition ignoreNothing :: ignoreListOfTypes where
  "ignoreNothing types text f = f text"

section \<open>The examples of the rule\<close>

text \<open>
  The \<^verbatim>\<open>ExampleBuilder\<close> arguments of lines 52 to 199. \<^verbatim>\<open>dedent\<close> strips the common
  indentation, the line break behind the opening backtick and the last line break with
  the indentation before the closing backtick; an interpolated \<^verbatim>\<open>${''}\<close> leaves an empty
  line. An example without \<^verbatim>\<open>options\<close> runs with the defaults.
\<close>

record example =
  description :: string
  before :: jsstring
  after :: jsstring
  optionsOverride :: "options option"

definition mergedOptions :: "example \<Rightarrow> options" where
  "mergedOptions e = (case optionsOverride e of None \<Rightarrow> defaultOptions | Some opts \<Rightarrow> opts)"

definition exampleBuilders :: "example list" where
  "exampleBuilders =
    [\<lparr>description = ''Headings should be surrounded by blank lines'',
      before = str ''# H1\<newline>## H2\<newline>\<newline>\<newline># H1\<newline>line\<newline>## H2\<newline>'',
      after = str ''# H1\<newline>\<newline>## H2\<newline>\<newline># H1\<newline>\<newline>line\<newline>\<newline>## H2'',
      optionsOverride = None\<rparr>,
     \<lparr>description = ''With `Bottom=false`'',
      before = str ''# H1\<newline>line\<newline>## H2\<newline># H1\<newline>line'',
      after = str ''# H1\<newline>line\<newline>\<newline>## H2\<newline>\<newline># H1\<newline>line'',
      optionsOverride = Some \<lparr>bottom = False, emptyLineAfterYaml = True,
        emptyLineInBlankSections = True\<rparr>\<rparr>,
     \<lparr>description = ''With `Bottom=true`, `emptyLineInBlankSections=false`'',
      before = str ''# H1\<newline>line\<newline>## H2\<newline># H1\<newline>line'',
      after = str ''# H1\<newline>\<newline>line\<newline>\<newline>## H2\<newline># H1\<newline>\<newline>line'',
      optionsOverride = Some \<lparr>bottom = True, emptyLineAfterYaml = True,
        emptyLineInBlankSections = False\<rparr>\<rparr>,
     \<lparr>description = ''With `Bottom=false`, `emptyLineInBlankSections=false`'',
      before = str ''# H1\<newline>line\<newline>## H2\<newline># H1\<newline>line'',
      after = str ''# H1\<newline>line\<newline>\<newline>## H2\<newline># H1\<newline>line'',
      optionsOverride = Some \<lparr>bottom = False, emptyLineAfterYaml = True,
        emptyLineInBlankSections = False\<rparr>\<rparr>,
     \<lparr>description = ''With `Bottom=false`, `emptyLineInBlankSections=false`, multiple empty sections'',
      before = str ''# H1\<newline>line\<newline>## H2\<newline>## H2\<newline># H1\<newline>line'',
      after = str ''# H1\<newline>line\<newline>\<newline>## H2\<newline>## H2\<newline># H1\<newline>line'',
      optionsOverride = Some \<lparr>bottom = False, emptyLineAfterYaml = True,
        emptyLineInBlankSections = False\<rparr>\<rparr>,
     \<lparr>description = ''Empty line before header and after Yaml is removed with `Empty Line Between Yaml and Header=true`'',
      before = str ''---\<newline>key: value\<newline>---\<newline># Header\<newline>Paragraph here...'',
      after = str ''---\<newline>key: value\<newline>---\<newline># Header\<newline>\<newline>Paragraph here...'',
      optionsOverride = Some \<lparr>bottom = True, emptyLineAfterYaml = False,
        emptyLineInBlankSections = True\<rparr>\<rparr>]"

text \<open>
  The frontmatter of the last example, and the two shapes in which the theorems on the
  examples let the masking engine hand it to the callback: as it is, or as an empty
  frontmatter block standing in for it. \<open>swapPrefix a b\<close> puts \<open>b\<close> in the place of a
  leading \<open>a\<close>.
\<close>

definition frontmatter :: jsstring where
  "frontmatter = str ''---\<newline>key: value\<newline>---''"

definition emptyFrontmatter :: jsstring where
  "emptyFrontmatter = str ''---\<newline>---''"

definition swapPrefix :: "jsstring \<Rightarrow> jsstring \<Rightarrow> jsstring \<Rightarrow> jsstring" where
  "swapPrefix a b t = (if take (length a) t = a then b @ drop (length a) t else t)"

definition reproduced :: "jsstring \<Rightarrow> example \<Rightarrow> bool" where
  "reproduced p e =
     (swapPrefix p frontmatter (callback (mergedOptions e) (swapPrefix frontmatter p (before e)))
        = after e)"

lemma reproduced_unmasked: "list_all (reproduced frontmatter) exampleBuilders"
  by code_simp

lemma reproduced_masked: "list_all (reproduced emptyFrontmatter) exampleBuilders"
  by code_simp

lemma swapPrefix_same: "swapPrefix a a t = t"
  by (simp add: swapPrefix_def) (metis append_take_drop_id)

section \<open>The heading pattern, match by match\<close>


definition headingSplit :: "jsstring \<Rightarrow> (jsstring \<times> jsstring) option" where
  "headingSplit r =
     (case r of
        [] \<Rightarrow> None
      | x # xs \<Rightarrow>
          if x = 0x23 then
            (case dropWhile (\<lambda>c. c = 0x23) xs of
               [] \<Rightarrow> None
             | w # r2 \<Rightarrow>
                 if isWhiteSpace w
                 then Some (x # takeWhile (\<lambda>c. c = 0x23) xs @ w # takeWhile (\<lambda>c. \<not> isLineTerminator c) r2,
                            dropWhile (\<lambda>c. \<not> isLineTerminator c) r2)
                 else None)
          else None)"

definition nextIs :: "(jschar \<Rightarrow> bool) \<Rightarrow> mstate \<Rightarrow> bool" where
  "nextIs P s = (case snd (snd s) of [] \<Rightarrow> False | x # xs \<Rightarrow> P x)"

lemma nextIs_simps [simp]:
  "nextIs P (cs, b, []) = False"
  "nextIs P (cs, b, x # xs) = P x"
  by (simp_all add: nextIs_def)

lemma repeat_Class:
  "length r \<le> n \<Longrightarrow>
     \<exists>others. repeat True (m (Class P) ml) n (cs, b, r)
         = (cs, rev (takeWhile P r) @ b, dropWhile P r) # others
       \<and> (\<forall>s \<in> set others. nextIs P s \<and> fst s = cs)"
proof (induction n arbitrary: b r)
  case 0
  then show ?case by simp
next
  case (Suc n)
  show ?case
  proof (cases r)
    case Nil
    then show ?thesis by simp
  next
    case (Cons x xs)
    show ?thesis
    proof (cases "P x")
      case False
      with Cons show ?thesis by simp
    next
      case True
      from Suc.prems Cons have "length xs \<le> n" by simp
      from Suc.IH[OF this, of "x # b"] obtain others
        where o: "repeat True (m (Class P) ml) n (cs, x # b, xs)
               = (cs, rev (takeWhile P xs) @ x # b, dropWhile P xs) # others"
          "\<forall>s \<in> set others. nextIs P s \<and> fst s = cs"
        by blast
      from Cons True o(1)
      have "repeat True (m (Class P) ml) (Suc n) (cs, b, r)
          = (cs, rev (takeWhile P r) @ b, dropWhile P r) # (others @ [(cs, b, x # xs)])"
        by simp
      moreover from o(2) True
      have "\<forall>s \<in> set (others @ [(cs, b, x # xs)]). nextIs P s \<and> fst s = cs"
        by simp
      ultimately show ?thesis by blast
    qed
  qed
qed

lemma Star_Class:
  "\<exists>others. m (Star (Class P)) ml (cs, b, r)
       = (cs, rev (takeWhile P r) @ b, dropWhile P r) # others
     \<and> (\<forall>s \<in> set others. nextIs P s \<and> fst s = cs)"
  using repeat_Class[of r "length r" P ml cs b] by simp

lemma concat_commit:
  assumes "\<forall>s \<in> set others. k s = []"
  shows "concat (map k (h # others)) = k h"
  using assms by (induction others) simp_all

lemma Star_Class_then:
  assumes "\<And>s. nextIs P s \<Longrightarrow> k s = []"
  shows "concat (map k (m (Star (Class P)) ml (cs, b, r)))
           = k (cs, rev (takeWhile P r) @ b, dropWhile P r)"
proof -
  from Star_Class[of P ml cs b r] obtain others
    where o: "m (Star (Class P)) ml (cs, b, r)
       = (cs, rev (takeWhile P r) @ b, dropWhile P r) # others"
      "\<forall>s \<in> set others. nextIs P s \<and> fst s = cs"
    by blast
  from o(2) assms have "\<forall>s \<in> set others. k s = []" by blast
  with o(1) show ?thesis by (simp only: concat_commit)
qed


lemma Plus_Class:
  "m (Plus (Class P)) ml (cs, b, r)
     = (case r of [] \<Rightarrow> [] | x # xs \<Rightarrow> if P x then m (Star (Class P)) ml (cs, x # b, xs) else [])"
  by (cases r) (simp_all add: Plus_def)

lemma Plus_Class_head:
  assumes "r = x # xs" "P x"
  shows "\<exists>others. m (Plus (Class P)) ml (cs, b, r)
       = (cs, rev (takeWhile P r) @ b, dropWhile P r) # others
     \<and> (\<forall>s \<in> set others. nextIs P s \<and> fst s = cs)"
  using Star_Class[of P ml cs "x # b" xs] assms
  by (simp add: Plus_Class)

lemma Plus_Class_then:
  assumes "\<And>s. nextIs P s \<Longrightarrow> k s = []"
  shows "concat (map k (m (Plus (Class P)) ml (cs, b, r)))
           = (case r of [] \<Rightarrow> [] | x # xs \<Rightarrow>
                if P x then k (cs, rev (takeWhile P r) @ b, dropWhile P r) else [])"
proof (cases r)
  case Nil
  then show ?thesis by (simp add: Plus_Class)
next
  case (Cons x xs)
  show ?thesis
  proof (cases "P x")
    case False
    with Cons show ?thesis by (simp add: Plus_Class)
  next
    case True
    from Star_Class_then[of P k ml cs "x # b" xs, OF assms] Cons True
    show ?thesis by (simp add: Plus_Class)
  qed
qed

lemma not_isWhiteSpace_hash: "\<not> isWhiteSpace 0x23"
  by (simp add: isWhiteSpace_def isLineTerminator_def)

lemma newline_isLineTerminator: "isLineTerminator 0x0A"
  by (simp add: isLineTerminator_def)

lemma ws_after_hashes:
  "concat (map (m (Seq ws (Star dot)) ml) (m (Plus hash) ml (cs, b, r)))
     = (case r of [] \<Rightarrow> [] | x # xs \<Rightarrow>
          if x = 0x23
          then m (Seq ws (Star dot)) ml
                 (cs, rev (takeWhile (\<lambda>c. c = 0x23) r) @ b, dropWhile (\<lambda>c. c = 0x23) r)
          else [])"
proof -
  have blocked: "\<And>s. nextIs (\<lambda>c. c = 0x23) s \<Longrightarrow> m (Seq ws (Star dot)) ml s = []"
  proof -
    fix s :: mstate
    assume n: "nextIs (\<lambda>c. c = 0x23) s"
    obtain cs1 b1 r1 where s: "s = (cs1, b1, r1)" by (cases s)
    with n obtain xs where "r1 = 0x23 # xs" by (cases r1) simp_all
    with s show "m (Seq ws (Star dot)) ml s = []"
      by (simp add: ws_def not_isWhiteSpace_hash)
  qed
  show ?thesis
    unfolding hash_def
    by (rule Plus_Class_then) (rule blocked)
qed

lemma ws_then_dot:
  "concat (map (m (Star dot) ml) (m ws ml (cs, b, r)))
     = (case r of [] \<Rightarrow> [] | w # r2 \<Rightarrow>
          if isWhiteSpace w then m (Star dot) ml (cs, w # b, r2) else [])"
  by (cases r) (simp_all add: ws_def)

lemma heading_unfold:
  "m heading ml (cs, b, r)
     = (case r of [] \<Rightarrow> [] | x # xs \<Rightarrow>
          if x = 0x23
          then (case dropWhile (\<lambda>c. c = 0x23) xs of
                  [] \<Rightarrow> []
                | w # r2 \<Rightarrow>
                    if isWhiteSpace w
                    then m (Star dot) ml (cs, w # rev (takeWhile (\<lambda>c. c = 0x23) xs) @ 0x23 # b, r2)
                    else [])
          else [])"
proof -
  have step: "m heading ml (cs, b, r)
      = concat (map (m (Seq ws (Star dot)) ml) (m (Plus hash) ml (cs, b, r)))"
    by (simp add: heading_def)
  show ?thesis
  proof (cases r)
    case Nil
    then show ?thesis
      unfolding step ws_after_hashes by simp
  next
    case (Cons x xs)
    show ?thesis
    proof (cases "x = 0x23")
      case False
      with Cons show ?thesis
        unfolding step ws_after_hashes by simp
    next
      case True
      with Cons have "m heading ml (cs, b, r)
          = m (Seq ws (Star dot)) ml
              (cs, rev (takeWhile (\<lambda>c. c = 0x23) xs) @ 0x23 # b, dropWhile (\<lambda>c. c = 0x23) xs)"
        unfolding step ws_after_hashes by simp
      with Cons True show ?thesis
        by (simp add: ws_then_dot)
    qed
  qed
qed

lemma headingSplit_None:
  assumes "headingSplit r = None"
  shows "m heading ml (cs, b, r) = []"
proof (cases r)
  case Nil
  then show ?thesis by (simp add: heading_unfold)
next
  case r: (Cons x xs)
  show ?thesis
  proof (cases "dropWhile (\<lambda>c. c = 0x23) xs")
    case Nil
    with r show ?thesis by (simp add: heading_unfold del: dropWhile_eq_Nil_conv)
  next
    case (Cons w r2)
    with assms r show ?thesis
      by (simp add: heading_unfold headingSplit_def split: if_splits)
  qed
qed

lemma headingSplit_Some:
  assumes "headingSplit r = Some (g, r')"
  shows "\<exists>others. m heading ml (cs, b, r) = (cs, rev g @ b, r') # others
           \<and> (\<forall>s \<in> set others. nextIs (\<lambda>c. \<not> isLineTerminator c) s \<and> fst s = cs)"
proof -
  from assms obtain xs w r2 where r: "r = 0x23 # xs"
    and d: "dropWhile (\<lambda>c. c = 0x23) xs = w # r2" and w: "isWhiteSpace w"
    and g: "g = 0x23 # takeWhile (\<lambda>c. c = 0x23) xs @ w # takeWhile (\<lambda>c. \<not> isLineTerminator c) r2"
    and r': "r' = dropWhile (\<lambda>c. \<not> isLineTerminator c) r2"
    by (auto simp: headingSplit_def split: list.splits if_splits)
  from Star_Class[of "\<lambda>c. \<not> isLineTerminator c" ml cs
      "w # rev (takeWhile (\<lambda>c. c = 0x23) xs) @ 0x23 # b" r2]
  obtain others where o:
    "m (Star dot) ml (cs, w # rev (takeWhile (\<lambda>c. c = 0x23) xs) @ 0x23 # b, r2)
       = (cs, rev (takeWhile (\<lambda>c. \<not> isLineTerminator c) r2) @ w # rev (takeWhile (\<lambda>c. c = 0x23) xs) @ 0x23 # b,
          dropWhile (\<lambda>c. \<not> isLineTerminator c) r2) # others"
    "\<forall>s \<in> set others. nextIs (\<lambda>c. \<not> isLineTerminator c) s \<and> fst s = cs"
    unfolding dot_def by blast
  have "m heading ml (cs, b, r)
      = m (Star dot) ml (cs, w # rev (takeWhile (\<lambda>c. c = 0x23) xs) @ 0x23 # b, r2)"
    using r d w by (simp add: heading_unfold)
  with o g r' show ?thesis by simp
qed

lemma headingSplit_append:
  "headingSplit r = Some (g, r') \<Longrightarrow> r = g @ r'"
  by (auto simp: headingSplit_def split: list.splits if_splits)
     (metis takeWhile_dropWhile_id)


lemma Group_heading_None:
  "headingSplit r = None \<Longrightarrow> m (Group i heading) ml (cs, b, r) = []"
  by (simp add: headingSplit_None)

lemma Group_heading_Some:
  assumes "headingSplit r = Some (g, r')"
  shows "\<exists>others. m (Group i heading) ml (cs, b, r) = (cs(i \<mapsto> g), rev g @ b, r') # others
           \<and> (\<forall>s \<in> set others. nextIs (\<lambda>c. \<not> isLineTerminator c) s)"
proof -
  let ?f = "\<lambda>(cs', b', r'). (cs'(i \<mapsto> rev (take (length b' - length b) b')), b', r')"
  from headingSplit_Some[OF assms, of ml cs b] obtain others
    where o: "m heading ml (cs, b, r) = (cs, rev g @ b, r') # others"
      "\<forall>s \<in> set others. nextIs (\<lambda>c. \<not> isLineTerminator c) s \<and> fst s = cs"
    by blast
  have eq: "m (Group i heading) ml (cs, b, r) = (cs(i \<mapsto> g), rev g @ b, r') # map ?f others"
    using o(1) by simp
  have bl: "\<forall>s \<in> set (map ?f others). nextIs (\<lambda>c. \<not> isLineTerminator c) s"
  proof
    fix s
    assume "s \<in> set (map ?f others)"
    then obtain s0 where s0: "s0 \<in> set others" "s = ?f s0" by auto
    obtain c0 b0 r0 where "s0 = (c0, b0, r0)" by (cases s0)
    moreover from s0(1) o(2) have "nextIs (\<lambda>c. \<not> isLineTerminator c) s0" by blast
    ultimately show "nextIs (\<lambda>c. \<not> isLineTerminator c) s"
      using s0(2) by (simp add: nextIs_def)
  qed
  from eq bl show ?thesis by blast
qed

lemma Group_heading_then:
  assumes "\<And>s. nextIs (\<lambda>c. \<not> isLineTerminator c) s \<Longrightarrow> k s = []"
  shows "concat (map k (m (Group i heading) ml (cs, b, r)))
           = (case headingSplit r of None \<Rightarrow> [] | Some (g, r') \<Rightarrow> k (cs(i \<mapsto> g), rev g @ b, r'))"
proof (cases "headingSplit r")
  case None
  then show ?thesis by (simp only: Group_heading_None) simp
next
  case (Some p)
  obtain g r' where p: "p = (g, r')" by (cases p)
  from Group_heading_Some[OF Some[unfolded p], of i ml cs b] obtain others
    where o: "m (Group i heading) ml (cs, b, r) = (cs(i \<mapsto> g), rev g @ b, r') # others"
      "\<forall>s \<in> set others. nextIs (\<lambda>c. \<not> isLineTerminator c) s"
    by blast
  from o(2) assms have "\<forall>s \<in> set others. k s = []" by blast
  then have "concat (map k ((cs(i \<mapsto> g), rev g @ b, r') # others)) = k (cs(i \<mapsto> g), rev g @ b, r')"
    by (rule concat_commit)
  with o(1) Some p show ?thesis by (simp only: option.case prod.case)
qed

text \<open>The first match of a pattern at a position, if any.\<close>

definition firstMatch :: "regex \<Rightarrow> bool \<Rightarrow> jsstring \<Rightarrow> jsstring \<Rightarrow> mstate option" where
  "firstMatch re ml b r = (case m re ml (Map.empty, b, r) of [] \<Rightarrow> None | s # rest \<Rightarrow> Some s)"

definition bol :: "bool \<Rightarrow> jsstring \<Rightarrow> bool" where
  "bol ml b = (b = [] \<or> (ml \<and> isLineTerminator (hd b)))"

lemma m_Bol_then: "concat (map k (m Bol ml (cs, b, r))) = (if bol ml b then k (cs, b, r) else [])"
  by (auto simp: bol_def)

lemma firstMatch_headingLine:
  "firstMatch (source headingLine) True b r
     = (if bol True b
        then (case headingSplit r of None \<Rightarrow> None
              | Some (g, r') \<Rightarrow> Some ([1 \<mapsto> g], rev g @ b, r'))
        else None)"
proof -
  have src: "m (source headingLine) True (Map.empty, b, r)
      = (if bol True b then m (Group 1 heading) True (Map.empty, b, r) else [])"
    by (simp add: headingLine_def bol_def)
  show ?thesis
  proof (cases "bol True b")
    case False
    with src show ?thesis by (simp add: firstMatch_def)
  next
    case True
    show ?thesis
    proof (cases "headingSplit r")
      case None
      with True src show ?thesis
        by (simp add: firstMatch_def headingSplit_None)
    next
      case (Some p)
      obtain g r' where p: "p = (g, r')" by (cases p)
      from Group_heading_Some[OF Some[unfolded p], of 1 True Map.empty b] obtain others
        where "m (Group 1 heading) True (Map.empty, b, r) = ([1 \<mapsto> g], rev g @ b, r') # others"
        by blast
      with True src Some p show ?thesis
        by (simp add: firstMatch_def)
    qed
  qed
qed


lemma headingSplit_hash: "headingSplit (x # xs) \<noteq> None \<Longrightarrow> x = 0x23"
  by (simp add: headingSplit_def split: if_splits)

lemma blocked_Group_heading:
  "nextIs (\<lambda>c. c = 0x0A) s \<Longrightarrow> m (Group i heading) ml s = []"
proof -
  assume n: "nextIs (\<lambda>c. c = 0x0A) s"
  obtain cs b r where s: "s = (cs, b, r)" by (cases s)
  with n obtain xs where "r = 0x0A # xs" by (cases r) simp_all
  then have "headingSplit r = None"
    by (simp add: headingSplit_def)
  with s show ?thesis by (simp only: Group_heading_None)
qed

lemma blocked_nl:
  "nextIs (\<lambda>c. \<not> isLineTerminator c) s \<Longrightarrow> m nl ml s = []"
proof -
  assume n: "nextIs (\<lambda>c. \<not> isLineTerminator c) s"
  obtain cs b r where s: "s = (cs, b, r)" by (cases s)
  with n obtain x xs where "r = x # xs" "\<not> isLineTerminator x" by (cases r) simp_all
  with s show ?thesis by (auto simp: nl_def isLineTerminator_def)
qed

lemma blocked_Seq: "m p ml s = [] \<Longrightarrow> m (Seq p q) ml s = []"
  by simp

lemma blocked_Plus_nl:
  "nextIs (\<lambda>c. \<not> isLineTerminator c) s \<Longrightarrow> m (Plus nl) ml s = []"
  unfolding Plus_def by (rule blocked_Seq) (rule blocked_nl)

lemma blocked_Eol: "nextIs P s \<Longrightarrow> m Eol False s = []"
  by (cases s) (auto simp: nextIs_def split: list.splits)

text \<open>\<^verbatim>\<open>\n+(#+\s.*)\<close> at a position.\<close>

lemma nls_then_heading:
  "m (Seq (Plus nl) (Group i heading)) ml (cs, b, r)
     = (case r of [] \<Rightarrow> [] | x # xs \<Rightarrow>
          if x = 0x0A
          then m (Group i heading) ml
                 (cs, rev (takeWhile (\<lambda>c. c = 0x0A) r) @ b, dropWhile (\<lambda>c. c = 0x0A) r)
          else [])"
proof -
  have "m (Seq (Plus nl) (Group i heading)) ml (cs, b, r)
      = concat (map (m (Group i heading) ml) (m (Plus (Class (\<lambda>c. c = 0x0A))) ml (cs, b, r)))"
    by (simp only: m.simps nl_def)
  also have "\<dots> = (case r of [] \<Rightarrow> [] | x # xs \<Rightarrow>
          if x = 0x0A
          then m (Group i heading) ml
                 (cs, rev (takeWhile (\<lambda>c. c = 0x0A) r) @ b, dropWhile (\<lambda>c. c = 0x0A) r)
          else [])"
    by (rule Plus_Class_then) (rule blocked_Group_heading)
  finally show ?thesis .
qed

text \<open>\<^verbatim>\<open>(#+\s.*)\<close> and what follows it, when that cannot start inside the line.\<close>

lemma heading_then:
  assumes "\<And>s. nextIs (\<lambda>c. \<not> isLineTerminator c) s \<Longrightarrow> m q ml s = []"
  shows "m (Seq (Group i heading) q) ml (cs, b, r)
           = (case headingSplit r of None \<Rightarrow> []
              | Some (g, r') \<Rightarrow> m q ml (cs(i \<mapsto> g), rev g @ b, r'))"
proof -
  have "m (Seq (Group i heading) q) ml (cs, b, r)
      = concat (map (m q ml) (m (Group i heading) ml (cs, b, r)))"
    by (simp only: m.simps)
  also have "\<dots> = (case headingSplit r of None \<Rightarrow> []
              | Some (g, r') \<Rightarrow> m q ml (cs(i \<mapsto> g), rev g @ b, r'))"
    by (rule Group_heading_then) (rule assms)
  finally show ?thesis .
qed

lemma Group_Bol_heading:
  "m (Group i (Seq Bol heading)) ml (cs, b, r)
     = (if bol ml b then m (Group i heading) ml (cs, b, r) else [])"
  by (auto simp: bol_def)

declare m.simps [simp del]

lemma firstMatch_Nil: "m re ml (Map.empty, b, r) = [] \<Longrightarrow> firstMatch re ml b r = None"
  by (simp add: firstMatch_def)

lemma firstMatch_Cons: "m re ml (Map.empty, b, r) = s # rest \<Longrightarrow> firstMatch re ml b r = Some s"
  by (simp add: firstMatch_def)

lemma firstMatch_Group_heading:
  "(case m (Group i heading) ml (cs, b, r) of [] \<Rightarrow> None | s # rest \<Rightarrow> Some s)
     = (case headingSplit r of None \<Rightarrow> None | Some (g, r') \<Rightarrow> Some (cs(i \<mapsto> g), rev g @ b, r'))"
proof (cases "headingSplit r")
  case None
  then show ?thesis by (simp only: Group_heading_None) simp
next
  case (Some p)
  obtain g r' where p: "p = (g, r')" by (cases p)
  from Group_heading_Some[OF Some[unfolded p], of i ml cs b] obtain others
    where "m (Group i heading) ml (cs, b, r) = (cs(i \<mapsto> g), rev g @ b, r') # others"
    by blast
  with Some p show ?thesis by (simp only: list.case option.case prod.case)
qed

lemma firstMatch_Plus_nl:
  "(case m (Plus nl) ml (cs, b, r) of [] \<Rightarrow> None | s # rest \<Rightarrow> Some s)
     = (case r of [] \<Rightarrow> None | x # xs \<Rightarrow>
          if x = 0x0A
          then Some (cs, rev (takeWhile (\<lambda>c. c = 0x0A) r) @ b, dropWhile (\<lambda>c. c = 0x0A) r)
          else None)"
proof (cases r)
  case Nil
  then show ?thesis by (simp add: nl_def Plus_Class)
next
  case (Cons x xs)
  show ?thesis
  proof (cases "x = 0x0A")
    case False
    with Cons show ?thesis by (simp add: nl_def Plus_Class)
  next
    case True
    from Plus_Class_head[of r x xs "\<lambda>c. c = 0x0A" ml cs b] Cons True obtain others
      where "m (Plus nl) ml (cs, b, r)
          = (cs, rev (takeWhile (\<lambda>c. c = 0x0A) r) @ b, dropWhile (\<lambda>c. c = 0x0A) r) # others"
      unfolding nl_def by blast
    with Cons True show ?thesis by simp
  qed
qed

lemma firstMatch_beforeHeading:
  "firstMatch (source beforeHeading) False b r
     = (case r of [] \<Rightarrow> None | x # xs \<Rightarrow>
          if x = 0x0A
          then (case headingSplit (dropWhile (\<lambda>c. c = 0x0A) r) of
                  None \<Rightarrow> None
                | Some (g, r') \<Rightarrow> Some ([1 \<mapsto> g], rev g @ rev (takeWhile (\<lambda>c. c = 0x0A) r) @ b, r'))
          else None)"
proof -
  have src: "source beforeHeading = Seq (Plus nl) (Group 1 heading)"
    by (simp add: beforeHeading_def)
  show ?thesis
  proof (cases r)
    case Nil
    then show ?thesis
      unfolding firstMatch_def src nls_then_heading by simp
  next
    case (Cons x xs)
    show ?thesis
    proof (cases "x = 0x0A")
      case False
      with Cons show ?thesis
        unfolding firstMatch_def src nls_then_heading by simp
    next
      case True
      with Cons have "firstMatch (source beforeHeading) False b r
          = (case m (Group 1 heading) False
                 (Map.empty, rev (takeWhile (\<lambda>c. c = 0x0A) r) @ b, dropWhile (\<lambda>c. c = 0x0A) r) of
               [] \<Rightarrow> None | s # rest \<Rightarrow> Some s)"
        unfolding firstMatch_def src nls_then_heading by simp
      also note firstMatch_Group_heading
      finally show ?thesis using Cons True by simp
    qed
  qed
qed

lemma firstMatch_beforeFirstHeading:
  "firstMatch (source beforeFirstHeading) False b r
     = (if b = [] then firstMatch (source beforeHeading) False b r else None)"
proof -
  have src: "source beforeFirstHeading = Seq Bol (Seq (Plus nl) (Group 1 heading))"
    "source beforeHeading = Seq (Plus nl) (Group 1 heading)"
    by (simp_all add: beforeFirstHeading_def beforeHeading_def)
  have "m (Seq Bol (Seq (Plus nl) (Group 1 heading))) False (Map.empty, b, r)
      = (if b = [] then m (Seq (Plus nl) (Group 1 heading)) False (Map.empty, b, r) else [])"
    by (simp only: m.simps(5) m_Bol_then) (simp add: bol_def)
  then show ?thesis
    unfolding firstMatch_def src by simp
qed

lemma firstMatch_afterHeading:
  "firstMatch (source afterHeading) True b r
     = (if bol True b
        then (case headingSplit r of
                None \<Rightarrow> None
              | Some (g, r') \<Rightarrow>
                  (case r' of [] \<Rightarrow> None | x # xs \<Rightarrow>
                     if x = 0x0A
                     then Some ([1 \<mapsto> g], rev (takeWhile (\<lambda>c. c = 0x0A) r') @ rev g @ b,
                                dropWhile (\<lambda>c. c = 0x0A) r')
                     else None))
        else None)"
proof -
  have src: "source afterHeading = Seq (Group 1 (Seq Bol heading)) (Plus nl)"
    by (simp add: afterHeading_def)
  have step: "m (Seq (Group 1 (Seq Bol heading)) (Plus nl)) True (Map.empty, b, r)
      = (if bol True b then m (Seq (Group 1 heading) (Plus nl)) True (Map.empty, b, r) else [])"
    by (simp only: m.simps(5) Group_Bol_heading) simp
  show ?thesis
  proof (cases "bol True b")
    case False
    with step show ?thesis unfolding firstMatch_def src by simp
  next
    case True
    have "m (Seq (Group 1 heading) (Plus nl)) True (Map.empty, b, r)
        = (case headingSplit r of None \<Rightarrow> []
           | Some (g, r') \<Rightarrow> m (Plus nl) True ([1 \<mapsto> g], rev g @ b, r'))"
      by (rule heading_then) (rule blocked_Plus_nl)
    with True step have "firstMatch (source afterHeading) True b r
        = (case (case headingSplit r of None \<Rightarrow> []
           | Some (g, r') \<Rightarrow> m (Plus nl) True ([1 \<mapsto> g], rev g @ b, r')) of
            [] \<Rightarrow> None | s # rest \<Rightarrow> Some s)"
      unfolding firstMatch_def src by simp
    also have "\<dots> = (case headingSplit r of
                None \<Rightarrow> None
              | Some (g, r') \<Rightarrow>
                  (case r' of [] \<Rightarrow> None | x # xs \<Rightarrow>
                     if x = 0x0A
                     then Some ([1 \<mapsto> g], rev (takeWhile (\<lambda>c. c = 0x0A) r') @ rev g @ b,
                                dropWhile (\<lambda>c. c = 0x0A) r')
                     else None))"
      by (cases "headingSplit r") (simp_all add: firstMatch_Plus_nl split: prod.splits list.splits)
    finally show ?thesis using True by simp
  qed
qed


lemma m_Eol_False: "m Eol False (cs, b, r) = (if r = [] then [(cs, b, r)] else [])"
  by (simp add: m.simps)

lemma dropWhile_Nil_takeWhile: "dropWhile P r = [] \<Longrightarrow> takeWhile P r = r"
  by (metis append_Nil2 takeWhile_dropWhile_id)

lemma nls_then_Eol:
  "m (Seq (Plus nl) Eol) False (cs, b, r)
     = (if r \<noteq> [] \<and> dropWhile (\<lambda>c. c = 0x0A) r = [] then [(cs, rev r @ b, [])] else [])"
proof -
  have "m (Seq (Plus nl) Eol) False (cs, b, r)
      = concat (map (m Eol False) (m (Plus (Class (\<lambda>c. c = 0x0A))) False (cs, b, r)))"
    by (simp only: m.simps nl_def)
  also have "\<dots> = (case r of [] \<Rightarrow> [] | x # xs \<Rightarrow>
          if x = 0x0A
          then m Eol False (cs, rev (takeWhile (\<lambda>c. c = 0x0A) r) @ b, dropWhile (\<lambda>c. c = 0x0A) r)
          else [])"
    by (rule Plus_Class_then) (rule blocked_Eol)
  finally have step: "m (Seq (Plus nl) Eol) False (cs, b, r)
      = (case r of [] \<Rightarrow> [] | x # xs \<Rightarrow>
          if x = 0x0A
          then m Eol False (cs, rev (takeWhile (\<lambda>c. c = 0x0A) r) @ b, dropWhile (\<lambda>c. c = 0x0A) r)
          else [])" .
  show ?thesis
  proof (cases r)
    case Nil
    with step show ?thesis by simp
  next
    case (Cons x xs)
    show ?thesis
    proof (cases "x = 0x0A")
      case False
      with Cons step show ?thesis by simp
    next
      case True
      show ?thesis
      proof (cases "dropWhile (\<lambda>c. c = 0x0A) r = []")
        case d: True
        from dropWhile_Nil_takeWhile[OF d] have "takeWhile (\<lambda>c. c = 0x0A) r = r" .
        with d Cons True step show ?thesis
          by (simp add: m_Eol_False del: dropWhile_eq_Nil_conv)
      next
        case d: False
        with Cons True step show ?thesis
          by (simp add: m_Eol_False del: dropWhile_eq_Nil_conv)
      qed
    qed
  qed
qed

lemma firstMatch_afterLastHeading:
  "firstMatch (source afterLastHeading) False b r
     = (case headingSplit r of
          None \<Rightarrow> None
        | Some (g, r') \<Rightarrow>
            if r' \<noteq> [] \<and> dropWhile (\<lambda>c. c = 0x0A) r' = []
            then Some ([1 \<mapsto> g], rev r' @ rev g @ b, [])
            else None)"
proof -
  have src: "source afterLastHeading = Seq (Group 1 heading) (Seq (Plus nl) Eol)"
    by (simp add: afterLastHeading_def)
  have step: "m (Seq (Group 1 heading) (Seq (Plus nl) Eol)) False (Map.empty, b, r)
      = (case headingSplit r of None \<Rightarrow> []
         | Some (g, r') \<Rightarrow> m (Seq (Plus nl) Eol) False ([1 \<mapsto> g], rev g @ b, r'))"
    by (rule heading_then) (rule blocked_Seq, rule blocked_Plus_nl)
  show ?thesis
  proof (cases "headingSplit r")
    case None
    with step show ?thesis unfolding firstMatch_def src by simp
  next
    case (Some p)
    obtain g r' where p: "p = (g, r')" by (cases p)
    show ?thesis
    proof (cases "r' \<noteq> [] \<and> dropWhile (\<lambda>c. c = 0x0A) r' = []")
      case True
      with Some p step show ?thesis
        unfolding firstMatch_def src
        by (simp add: nls_then_Eol del: dropWhile_eq_Nil_conv)
    next
      case False
      with Some p step show ?thesis
        unfolding firstMatch_def src
        by (simp add: nls_then_Eol del: dropWhile_eq_Nil_conv)
    qed
  qed
qed

text \<open>What a replacement of the leftmost match does, by where the leftmost match is.\<close>

lemma replaceFirst_unfold:
  "replaceFirst re ml t b r
     = (case firstMatch re ml b r of
          Some (cs, b', r') \<Rightarrow> expand t cs @ r'
        | None \<Rightarrow> (case r of [] \<Rightarrow> [] | x # xs \<Rightarrow> x # replaceFirst re ml t (x # b) xs))"
  by (subst replaceFirst.simps) (simp add: firstMatch_def split: list.splits)

declare replaceFirst.simps [simp del]

lemma replaceFirst_none:
  "(\<forall>pre suf. r = pre @ suf \<longrightarrow> firstMatch re ml (rev pre @ b) suf = None)
     \<Longrightarrow> replaceFirst re ml t b r = r"
proof (induction r arbitrary: b)
  case Nil
  from Nil[rule_format, of "[]" "[]"] show ?case
    by (simp add: replaceFirst_unfold)
next
  case (Cons x xs)
  from Cons.prems[rule_format, of "[]" "x # xs"]
  have none: "firstMatch re ml b (x # xs) = None" by simp
  have "\<forall>pre suf. xs = pre @ suf \<longrightarrow> firstMatch re ml (rev pre @ x # b) suf = None"
  proof (intro allI impI)
    fix pre suf
    assume "xs = pre @ suf"
    with Cons.prems[rule_format, of "x # pre" suf]
    show "firstMatch re ml (rev pre @ x # b) suf = None" by simp
  qed
  from Cons.IH[OF this] none show ?case
    by (simp add: replaceFirst_unfold)
qed

lemma replaceFirst_at:
  "firstMatch re ml (rev pre @ b) suf = Some (cs, b', r')
     \<Longrightarrow> (\<forall>p s. pre @ suf = p @ s \<and> length p < length pre \<longrightarrow> firstMatch re ml (rev p @ b) s = None)
     \<Longrightarrow> replaceFirst re ml t b (pre @ suf) = pre @ expand t cs @ r'"
proof (induction pre arbitrary: b)
  case Nil
  then show ?case by (simp add: replaceFirst_unfold)
next
  case (Cons x pre)
  from Cons.prems(2)[rule_format, of "[]" "x # pre @ suf"]
  have none: "firstMatch re ml b (x # pre @ suf) = None" by simp
  have early: "\<forall>p s. pre @ suf = p @ s \<and> length p < length pre
      \<longrightarrow> firstMatch re ml (rev p @ x # b) s = None"
  proof (intro allI impI)
    fix p s
    assume "pre @ suf = p @ s \<and> length p < length pre"
    with Cons.prems(2)[rule_format, of "x # p" s]
    show "firstMatch re ml (rev p @ x # b) s = None" by simp
  qed
  from Cons.prems(1) have "firstMatch re ml (rev pre @ x # b) suf = Some (cs, b', r')"
    by simp
  from Cons.IH[OF this early] none show ?case
    by (simp add: replaceFirst_unfold)
qed

lemma leftmost_split:
  assumes "r = pre0 @ suf0" "F pre0 suf0 \<noteq> None"
  shows "\<exists>pre suf v. r = pre @ suf \<and> F pre suf = Some v
           \<and> (\<forall>p s. r = p @ s \<and> length p < length pre \<longrightarrow> F p s = None)"
proof -
  define Q where "Q n = (\<exists>pre suf. r = pre @ suf \<and> length pre = n \<and> F pre suf \<noteq> None)" for n
  have "Q (length pre0)" using assms unfolding Q_def by blast
  then have "Q (LEAST n. Q n)" by (rule LeastI)
  then obtain pre suf where ps: "r = pre @ suf" "length pre = (LEAST n. Q n)" "F pre suf \<noteq> None"
    unfolding Q_def by blast
  then obtain v where v: "F pre suf = Some v" by auto
  have early: "\<forall>p s. r = p @ s \<and> length p < length pre \<longrightarrow> F p s = None"
  proof (intro allI impI)
    fix p s
    assume a: "r = p @ s \<and> length p < length pre"
    show "F p s = None"
    proof (rule ccontr)
      assume "F p s \<noteq> None"
      with a have "Q (length p)" unfolding Q_def by blast
      then have "(LEAST n. Q n) \<le> length p" by (rule Least_le)
      with a ps(2) show False by simp
    qed
  qed
  from ps(1) v early show ?thesis by blast
qed

section \<open>The shape of a heading\<close>


definition isHeading :: "jsstring \<Rightarrow> bool" where
  "isHeading g = (headingSplit g = Some (g, []))"

lemma takeWhile_replicate_eq:
  "takeWhile (\<lambda>c. c = x) xs = replicate (length (takeWhile (\<lambda>c. c = x) xs)) x"
  by (induction xs) simp_all

lemma headingSplit_shape:
  assumes "headingSplit r = Some (g, r')"
  shows "\<exists>a w body. g = replicate (Suc a) 0x23 @ w # body \<and> isWhiteSpace w
           \<and> (\<forall>c \<in> set body. \<not> isLineTerminator c) \<and> (r' = [] \<or> isLineTerminator (hd r'))"
proof -
  from assms obtain xs w r2 where r: "r = 0x23 # xs"
    and d: "dropWhile (\<lambda>c. c = 0x23) xs = w # r2" and w: "isWhiteSpace w"
    and g: "g = 0x23 # takeWhile (\<lambda>c. c = 0x23) xs @ w # takeWhile (\<lambda>c. \<not> isLineTerminator c) r2"
    and r': "r' = dropWhile (\<lambda>c. \<not> isLineTerminator c) r2"
    by (auto simp: headingSplit_def split: list.splits if_splits)
  let ?a = "length (takeWhile (\<lambda>c. c = 0x23) xs)"
  let ?body = "takeWhile (\<lambda>c. \<not> isLineTerminator c) r2"
  from g takeWhile_replicate_eq[of "0x23" xs]
  have "g = replicate (Suc ?a) 0x23 @ w # ?body" by simp
  moreover have "\<forall>c \<in> set ?body. \<not> isLineTerminator c"
    by (auto dest: set_takeWhileD)
  moreover have "r' = [] \<or> isLineTerminator (hd r')"
    unfolding r' using hd_dropWhile[of "\<lambda>c. \<not> isLineTerminator c" r2] by blast
  ultimately show ?thesis using w by blast
qed

lemma takeWhile_all: "\<forall>c \<in> set xs. P c \<Longrightarrow> (ys = [] \<or> \<not> P (hd ys)) \<Longrightarrow> takeWhile P (xs @ ys) = xs"
  by (induction xs) (auto simp: takeWhile_eq_Nil_iff)

lemma dropWhile_all: "\<forall>c \<in> set xs. P c \<Longrightarrow> (ys = [] \<or> \<not> P (hd ys)) \<Longrightarrow> dropWhile P (xs @ ys) = ys"
  by (induction xs) (auto simp: dropWhile_eq_self_iff)

lemma headingSplit_of_shape:
  assumes "isWhiteSpace w" "\<forall>c \<in> set body. \<not> isLineTerminator c"
    and "r' = [] \<or> isLineTerminator (hd r')"
  shows "headingSplit (replicate (Suc a) 0x23 @ w # body @ r')
           = Some (replicate (Suc a) 0x23 @ w # body, r')"
proof -
  from assms(1) have wh: "w \<noteq> 0x23" using not_isWhiteSpace_hash by auto
  have tw: "takeWhile (\<lambda>c. c = 0x23) (replicate a 0x23 @ w # body @ r') = replicate a 0x23"
    using wh by (intro takeWhile_all) simp_all
  have dw: "dropWhile (\<lambda>c. c = 0x23) (replicate a 0x23 @ w # body @ r') = w # body @ r'"
    using wh by (intro dropWhile_all) simp_all
  have tb: "takeWhile (\<lambda>c. \<not> isLineTerminator c) (body @ r') = body"
    using assms(2,3) by (intro takeWhile_all) auto
  have db: "dropWhile (\<lambda>c. \<not> isLineTerminator c) (body @ r') = r'"
    using assms(2,3) by (intro dropWhile_all) auto
  show ?thesis
    using assms(1) by (simp add: headingSplit_def tw dw tb db)
qed

lemma headingSplit_extend:
  assumes "headingSplit r = Some (g, [])" "v = [] \<or> isLineTerminator (hd v)"
  shows "headingSplit (r @ v) = Some (g, v)"
proof -
  from headingSplit_shape[OF assms(1)] obtain a w body
    where s: "g = replicate (Suc a) 0x23 @ w # body" "isWhiteSpace w"
      "\<forall>c \<in> set body. \<not> isLineTerminator c"
    by blast
  from headingSplit_append[OF assms(1)] have "r = g" by simp
  with s headingSplit_of_shape[OF s(2) s(3) assms(2), of a] show ?thesis by simp
qed

lemma headingSplit_mono:
  assumes "headingSplit u \<noteq> None"
  shows "headingSplit (u @ v) \<noteq> None"
proof -
  from assms obtain x xs w r2 where u: "u = x # xs" "x = 0x23"
    and d: "dropWhile (\<lambda>c. c = 0x23) xs = w # r2" and w: "isWhiteSpace w"
    by (auto simp: headingSplit_def split: list.splits if_splits)
  from d have "dropWhile (\<lambda>c. c = 0x23) (xs @ v) = w # r2 @ v"
    by (metis (mono_tags, lifting) append_Cons dropWhile_append1 dropWhile_eq_Nil_conv hd_dropWhile list.distinct(1) list.sel(1) dropWhile_append)
  with u w show ?thesis by (simp add: headingSplit_def)
qed


lemma all_nl_replicate: "\<forall>c \<in> set xs. c = x \<Longrightarrow> replicate (length xs) x = xs"
  by (induction xs) simp_all

lemma append_split_ge:
  "pre @ g = p @ s \<Longrightarrow> length pre \<le> length p \<Longrightarrow> \<exists>q. p = pre @ q \<and> g = q @ s"
  by (induction pre arbitrary: p) (auto simp: Cons_eq_append_conv)

lemma fm_afterLast_Some:
  assumes "firstMatch (source afterLastHeading) False b s = Some v"
  shows "\<exists>g nls. headingSplit s = Some (g, nls) \<and> nls \<noteq> [] \<and> (\<forall>c \<in> set nls. c = 0x0A)
           \<and> v = ([1 \<mapsto> g], rev nls @ rev g @ b, [])"
proof (cases "headingSplit s")
  case None
  with assms show ?thesis by (simp add: firstMatch_afterLastHeading)
next
  case (Some p)
  obtain g nls where p: "p = (g, nls)" by (cases p)
  from assms Some p have "nls \<noteq> [] \<and> dropWhile (\<lambda>c. c = 0x0A) nls = []"
    and "v = ([1 \<mapsto> g], rev nls @ rev g @ b, [])"
    by (simp_all add: firstMatch_afterLastHeading del: dropWhile_eq_Nil_conv split: if_splits)
  with Some p show ?thesis by simp
qed

lemma fm_afterLast_of:
  assumes "headingSplit s = Some (g, nls)" "nls \<noteq> []" "\<forall>c \<in> set nls. c = 0x0A"
  shows "firstMatch (source afterLastHeading) False b s \<noteq> None"
  using assms by (simp add: firstMatch_afterLastHeading)

text \<open>Line 43 takes line feeds off the end of the text, and nothing else.\<close>

lemma afterLast_result:
  fixes t :: jsstring
  defines "out \<equiv> replaceFirst (source afterLastHeading) False [Ref 1] [] t"
  shows "(\<exists>j. t = out @ replicate j 0x0A)
     \<and> (\<forall>p s. out = p @ s \<longrightarrow> firstMatch (source afterLastHeading) False (rev p) s = None)"
proof (cases "\<forall>pre suf. t = pre @ suf \<longrightarrow> firstMatch (source afterLastHeading) False (rev pre @ []) suf = None")
  case True
  from replaceFirst_none[OF True] have "out = t" by (simp add: out_def)
  with True show ?thesis by (auto intro: exI[of _ 0])
next
  case False
  then obtain pre0 suf0 where "t = pre0 @ suf0"
    "firstMatch (source afterLastHeading) False (rev pre0) suf0 \<noteq> None"
    by auto
  from leftmost_split[of t pre0 suf0 "\<lambda>p s. firstMatch (source afterLastHeading) False (rev p) s", OF this]
  obtain pre suf v where l: "t = pre @ suf"
    "firstMatch (source afterLastHeading) False (rev pre) suf = Some v"
    "\<forall>p s. t = p @ s \<and> length p < length pre
        \<longrightarrow> firstMatch (source afterLastHeading) False (rev p) s = None"
    by blast
  from fm_afterLast_Some[OF l(2)] obtain g nls
    where h: "headingSplit suf = Some (g, nls)" "nls \<noteq> []" "\<forall>c \<in> set nls. c = 0x0A"
      "v = ([1 \<mapsto> g], rev nls @ rev g @ rev pre, [])"
    by blast
  from headingSplit_append[OF h(1)] have suf: "suf = g @ nls" .
  from l(2) h(4) have "firstMatch (source afterLastHeading) False (rev pre @ []) suf
      = Some ([1 \<mapsto> g], rev nls @ rev g @ rev pre, [])" by simp
  from replaceFirst_at[OF this, of "[Ref 1]"] l(1,3)
  have out: "out = pre @ g" by (simp add: out_def)
  from all_nl_replicate[OF h(3)] l(1) suf out
  have strip: "t = out @ replicate (length nls) 0x0A" by simp
  have "\<forall>p s. out = p @ s \<longrightarrow> firstMatch (source afterLastHeading) False (rev p) s = None"
  proof (intro allI impI, rule ccontr)
    fix p s
    assume ps: "out = p @ s"
    assume "firstMatch (source afterLastHeading) False (rev p) s \<noteq> None"
    then obtain v0 where "firstMatch (source afterLastHeading) False (rev p) s = Some v0" by auto
    from fm_afterLast_Some[OF this] obtain g0 n0
      where h0: "headingSplit s = Some (g0, n0)" "n0 \<noteq> []" "\<forall>c \<in> set n0. c = 0x0A"
      by blast
    from headingSplit_append[OF h0(1)] have s: "s = g0 @ n0" .
    from headingSplit_shape[OF h0(1)] obtain a0 w0 body0
      where sh0: "g0 = replicate (Suc a0) 0x23 @ w0 # body0" "isWhiteSpace w0"
        "\<forall>c \<in> set body0. \<not> isLineTerminator c"
      by blast
    \<comment> \<open>the match is also one of the text before the replacement\<close>
    have nn: "n0 @ nls = [] \<or> isLineTerminator (hd (n0 @ nls))"
      using h0(2,3) by (cases n0) (simp_all add: newline_isLineTerminator)
    from headingSplit_of_shape[OF sh0(2,3) nn, of a0] sh0(1)
    have "headingSplit (g0 @ n0 @ nls) = Some (g0, n0 @ nls)" by simp
    then have m0: "firstMatch (source afterLastHeading) False (rev p) (s @ nls) \<noteq> None"
      using h0(2,3) h(3) s by (intro fm_afterLast_of[of _ g0 "n0 @ nls"]) auto
    have pg: "pre @ g = p @ s" by (rule trans[OF out[symmetric] ps])
    have tp: "t = p @ (s @ nls)"
      by (simp only: l(1) suf append_assoc[symmetric] pg)
    from l(3)[rule_format, of p "s @ nls"] tp m0 have "\<not> length p < length pre" by blast
    then have "length pre \<le> length p" by simp
    from append_split_ge[OF pg this] obtain q where q: "p = pre @ q" "g = q @ s"
      by blast
    \<comment> \<open>so the heading found first ends with a line feed: it is hashes and a line feed\<close>
    from headingSplit_shape[OF h(1)] obtain a w body
      where sh: "g = replicate (Suc a) 0x23 @ w # body" "isWhiteSpace w"
        "\<forall>c \<in> set body. \<not> isLineTerminator c"
      by blast
    from q(2) s h0(2) have "last g = last n0" by simp
    with h0(2,3) have lastg: "last g = 0x0A" by (metis last_in_set)
    have "body = []"
    proof (rule ccontr)
      assume "body \<noteq> []"
      with sh(1) have "last g = last body" by simp
      with lastg \<open>body \<noteq> []\<close> sh(3) show False
        using newline_isLineTerminator by (metis last_in_set)
    qed
    with sh(1) have g: "g = replicate (Suc a) 0x23 @ [w]" by simp
    have "length (filter (\<lambda>c. c \<noteq> 0x23) g) \<le> 1"
      unfolding g by simp
    moreover from q(2) have "length (filter (\<lambda>c. c \<noteq> 0x23) s) \<le> length (filter (\<lambda>c. c \<noteq> 0x23) g)"
      by simp
    moreover have "2 \<le> length (filter (\<lambda>c. c \<noteq> 0x23) s)"
    proof -
      from sh0(2) have "w0 \<noteq> 0x23" using not_isWhiteSpace_hash by auto
      moreover from h0(2,3) obtain n1 where "n0 = 0x0A # n1" by (cases n0) auto
      ultimately show ?thesis unfolding s sh0(1) by simp
    qed
    ultimately show False by simp
  qed
  with strip show ?thesis by blast
qed

section \<open>The start and the end of the text\<close>


definition blankThenHeading :: "jsstring \<Rightarrow> bool" where
  "blankThenHeading t =
     (case t of [] \<Rightarrow> False
      | x # xs \<Rightarrow> x = 0x0A \<and> headingSplit (dropWhile (\<lambda>c. c = 0x0A) t) \<noteq> None)"

definition headingThenBlank :: "jsstring \<Rightarrow> bool" where
  "headingThenBlank t = (\<exists>pre g k. t = pre @ g @ replicate (Suc k) 0x0A \<and> isHeading g)"

lemma fm_beforeHeading_iff:
  "firstMatch (source beforeHeading) False b t \<noteq> None \<longleftrightarrow> blankThenHeading t"
  by (cases t) (auto simp: firstMatch_beforeHeading blankThenHeading_def split: option.splits)

lemma headingSplit_hd:
  "headingSplit r = Some (g, r') \<Longrightarrow> g \<noteq> [] \<and> hd g = 0x23"
  by (auto simp: headingSplit_def split: list.splits if_splits)

text \<open>Line 42 takes line feeds off the start of the text, and only in front of a heading.\<close>

lemma beforeFirst_result:
  fixes t :: jsstring
  defines "out \<equiv> replaceFirst (source beforeFirstHeading) False [Ref 1] [] t"
  shows "\<not> blankThenHeading out \<and> (\<exists>j. t = replicate j 0x0A @ out)"
proof (cases "firstMatch (source beforeHeading) False [] t")
  case None
  have "\<forall>pre suf. t = pre @ suf
      \<longrightarrow> firstMatch (source beforeFirstHeading) False (rev pre @ []) suf = None"
  proof (intro allI impI)
    fix pre suf
    assume "t = pre @ suf"
    with None show "firstMatch (source beforeFirstHeading) False (rev pre @ []) suf = None"
      by (cases pre) (simp_all add: firstMatch_beforeFirstHeading)
  qed
  from replaceFirst_none[OF this] have "out = t" by (simp add: out_def)
  moreover from None have "\<not> blankThenHeading t"
    using fm_beforeHeading_iff[of "[]" t] by simp
  ultimately show ?thesis by (auto intro: exI[of _ 0])
next
  case (Some v)
  then obtain x xs where t: "t = x # xs" "x = 0x0A"
    by (cases t) (auto simp: firstMatch_beforeHeading split: if_splits)
  with Some obtain g r' where h: "headingSplit (dropWhile (\<lambda>c. c = 0x0A) t) = Some (g, r')"
    and v: "v = ([1 \<mapsto> g], rev g @ rev (takeWhile (\<lambda>c. c = 0x0A) t) @ [], r')"
    by (auto simp: firstMatch_beforeHeading split: option.splits)
  from Some v have "firstMatch (source beforeFirstHeading) False [] t
      = Some ([1 \<mapsto> g], rev g @ rev (takeWhile (\<lambda>c. c = 0x0A) t) @ [], r')"
    by (simp add: firstMatch_beforeFirstHeading)
  then have "out = g @ r'"
    by (simp add: out_def replaceFirst_unfold)
  with headingSplit_append[OF h] have out: "out = dropWhile (\<lambda>c. c = 0x0A) t" by simp
  from headingSplit_hd[OF h] \<open>out = g @ r'\<close> have "out \<noteq> []" "hd out = 0x23" by simp_all
  then have "\<not> blankThenHeading out"
    by (cases out) (simp_all add: blankThenHeading_def)
  moreover have "t = replicate (length (takeWhile (\<lambda>c. c = 0x0A) t)) 0x0A @ out"
    unfolding out using takeWhile_replicate_eq[of "0x0A" t, symmetric] by simp
  ultimately show ?thesis by blast
qed

lemma blankThenHeading_append:
  assumes "blankThenHeading u"
  shows "blankThenHeading (u @ v)"
proof -
  from assms obtain x xs where u: "u = x # xs" "x = 0x0A"
    and h: "headingSplit (dropWhile (\<lambda>c. c = 0x0A) u) \<noteq> None"
    by (cases u) (auto simp: blankThenHeading_def)
  have ne: "dropWhile (\<lambda>c. c = 0x0A) u \<noteq> []"
  proof
    assume e: "dropWhile (\<lambda>c. c = 0x0A) u = []"
    from h show False unfolding e by (simp add: headingSplit_def)
  qed
  then obtain y where "y \<in> set u" "y \<noteq> 0x0A"
    by (auto simp: dropWhile_eq_Nil_conv)
  then have "dropWhile (\<lambda>c. c = 0x0A) (u @ v) = dropWhile (\<lambda>c. c = 0x0A) u @ v"
    by (intro dropWhile_append1)
  with headingSplit_mono[OF h, of v] u show ?thesis
    by (simp add: blankThenHeading_def)
qed

lemma isHeading_shape:
  "isHeading g \<Longrightarrow> \<exists>a w body. g = replicate (Suc a) 0x23 @ w # body \<and> isWhiteSpace w
      \<and> (\<forall>c \<in> set body. \<not> isLineTerminator c)"
  unfolding isHeading_def using headingSplit_shape by blast

lemma headingThenBlank_iff:
  "headingThenBlank t
     \<longleftrightarrow> (\<exists>p s. t = p @ s \<and> firstMatch (source afterLastHeading) False (rev p) s \<noteq> None)"
proof
  assume "headingThenBlank t"
  then obtain pre g k where t: "t = pre @ g @ replicate (Suc k) 0x0A" and g: "isHeading g"
    unfolding headingThenBlank_def by blast
  from g have "headingSplit (g @ replicate (Suc k) 0x0A) = Some (g, replicate (Suc k) 0x0A)"
    unfolding isHeading_def
    by (intro headingSplit_extend) (simp_all add: newline_isLineTerminator)
  then have "firstMatch (source afterLastHeading) False (rev pre) (g @ replicate (Suc k) 0x0A) \<noteq> None"
    by (rule fm_afterLast_of) simp_all
  with t show "\<exists>p s. t = p @ s \<and> firstMatch (source afterLastHeading) False (rev p) s \<noteq> None"
    by blast
next
  assume "\<exists>p s. t = p @ s \<and> firstMatch (source afterLastHeading) False (rev p) s \<noteq> None"
  then obtain p s v where t: "t = p @ s"
    and "firstMatch (source afterLastHeading) False (rev p) s = Some v"
    by auto
  from fm_afterLast_Some[OF this(2)] obtain g nls
    where h: "headingSplit s = Some (g, nls)" "nls \<noteq> []" "\<forall>c \<in> set nls. c = 0x0A"
    by blast
  from headingSplit_shape[OF h(1)] obtain a w body
    where sh: "g = replicate (Suc a) 0x23 @ w # body" "isWhiteSpace w"
      "\<forall>c \<in> set body. \<not> isLineTerminator c"
    by blast
  have "([]::jsstring) = [] \<or> isLineTerminator (hd ([]::jsstring))" by simp
  from headingSplit_of_shape[OF sh(2,3) this, of a] sh(1) have "isHeading g"
    by (simp add: isHeading_def)
  moreover from h(2) obtain k where "length nls = Suc k" by (cases nls) simp_all
  with all_nl_replicate[OF h(3)] have "replicate (Suc k) 0x0A = nls" by simp
  with headingSplit_append[OF h(1)] t have "t = p @ g @ replicate (Suc k) 0x0A" by simp
  ultimately show "headingThenBlank t"
    unfolding headingThenBlank_def by blast
qed

section \<open>The frontmatter pattern\<close>


lemma m_Seq_iff:
  "st' \<in> set (m (Seq p q) ml st) \<longleftrightarrow> (\<exists>s \<in> set (m p ml st). st' \<in> set (m q ml s))"
  by (simp add: m.simps)

lemma hd_concat_map:
  "concat (map f xs) = h # rest \<Longrightarrow> \<exists>x \<in> set xs. \<exists>rest'. f x = h # rest'"
proof (induction xs)
  case Nil
  then show ?case by simp
next
  case (Cons x xs)
  show ?case
  proof (cases "f x")
    case Nil
    with Cons show ?thesis by simp
  next
    case (Cons y ys)
    with Cons.prems have "f x = h # ys" by simp
    then show ?thesis by simp
  qed
qed

text \<open>The frontmatter pattern of line 46, inside its added group.\<close>

lemma yaml_form:
  "shift 1 (source yamlRegex)
     = Seq Bol (Seq dash (Seq dash (Seq dash (Seq nl
         (Seq (Group 2 (Opt (Group 3 (Seq
                 (Group 4 (Seq (NotAhead (Seq dash (Seq dash dash))) (LazyStar (Alt dot nl)))) nl))))
           (Seq dash (Seq dash (Seq dash (Ahead (Alt nl Eol))))))))))"
  by (simp add: yamlRegex_def dash_def nl_def dot_def)

lemma yaml_sound:
  assumes "(cs', b', r') \<in> set (m (shift 1 (source yamlRegex)) False (cs, b, r))"
  shows "b = [] \<and> (\<exists>u. r = 0x2D # u @ r') \<and> (\<exists>b0. b' = 0x2D # b0)"
proof -
  let ?tail = "Seq dash (Seq dash (Seq dash (Ahead (Alt nl Eol))))"
  let ?g = "Group 2 (Opt (Group 3 (Seq
                 (Group 4 (Seq (NotAhead (Seq dash (Seq dash dash))) (LazyStar (Alt dot nl)))) nl)))"
  from assms[unfolded yaml_form m_Seq_iff] obtain s0 s1 s2 s3 s4 s5 s6 s7 s8
    where s0: "s0 \<in> set (m Bol False (cs, b, r))"
      and s1: "s1 \<in> set (m dash False s0)"
      and s2: "s2 \<in> set (m dash False s1)"
      and s3: "s3 \<in> set (m dash False s2)"
      and s4: "s4 \<in> set (m nl False s3)"
      and s5: "s5 \<in> set (m ?g False s4)"
      and s6: "s6 \<in> set (m dash False s5)"
      and s7: "s7 \<in> set (m dash False s6)"
      and s8: "s8 \<in> set (m dash False s7)"
      and s9: "(cs', b', r') \<in> set (m (Ahead (Alt nl Eol)) False s8)"
    by blast
  from s0 have b: "b = []" and s0_eq: "s0 = (cs, b, r)"
    by (auto simp: m.simps split: if_splits)
  obtain c1 b1 r1 where e1: "s1 = (c1, b1, r1)" by (cases s1)
  from s1 s0_eq e1 have r: "r = 0x2D # r1"
    by (auto simp: dash_def m_Class)
  obtain c7 b7 r7 where e7: "s7 = (c7, b7, r7)" by (cases s7)
  obtain c8 b8 r8 where e8: "s8 = (c8, b8, r8)" by (cases s8)
  from s8 e7 e8 have b8: "b8 = 0x2D # b7"
    by (auto simp: dash_def m_Class)
  from s9 e8 have same: "b' = b8" "r' = r8"
    by (auto simp: m.simps split: list.splits)
  have "extends s1 s8"
    using m_extends[OF s2] m_extends[OF s3] m_extends[OF s4] m_extends[OF s5]
      m_extends[OF s6] m_extends[OF s7] m_extends[OF s8]
    by (meson extends_trans)
  with e1 e8 obtain u where "r1 = u @ r8"
    by (auto simp: extends_triple)
  with r b b8 same show ?thesis by simp
qed


lemma fm_afterYaml_Some:
  assumes "firstMatch (source afterYaml) False b r = Some (cs, b', r')"
  shows "b = [] \<and> (\<exists>y nls g. r = y @ nls @ g @ r' \<and> y \<noteq> [] \<and> hd y = 0x2D \<and> last y = 0x2D
           \<and> nls \<noteq> [] \<and> (\<forall>c \<in> set nls. c = 0x0A) \<and> headingSplit (g @ r') = Some (g, r')
           \<and> cs 1 = Some y \<and> cs 5 = Some g)"
proof -
  let ?Y = "shift 1 (source yamlRegex)"
  let ?B = "Seq (Plus nl) (Group 5 heading)"
  have src: "source afterYaml = Seq (Group 1 ?Y) ?B"
    by (simp add: afterYaml_def)
  from assms obtain rest
    where "concat (map (m ?B False) (m (Group 1 ?Y) False (Map.empty, b, r))) = (cs, b', r') # rest"
    unfolding firstMatch_def src m.simps(5) by (auto split: list.splits)
  from hd_concat_map[OF this] obtain x rest'
    where x: "x \<in> set (m (Group 1 ?Y) False (Map.empty, b, r))"
      and fx: "m ?B False x = (cs, b', r') # rest'"
    by blast
  obtain cs1 b1 r1 where x_eq: "x = (cs1, b1, r1)" by (cases x)
  from m_Group[OF x[unfolded x_eq]] obtain cs0 y
    where y: "(cs0, b1, r1) \<in> set (m ?Y False (Map.empty, b, r))" "r = y @ r1" "b1 = rev y @ b"
      "cs1 = cs0(1 \<mapsto> y)"
    by blast
  from yaml_sound[OF y(1)] obtain u b0 where ys: "b = []" "r = 0x2D # u @ r1" "b1 = 0x2D # b0"
    by blast
  from y(2) ys(2) have y_eq: "y = 0x2D # u" by simp
  from y(3) ys(1,3) have "rev y = 0x2D # b0" by simp
  then have "y = rev b0 @ [0x2D]" by (metis rev.simps(2) rev_rev_ident)
  then have lasty: "last y = 0x2D" by simp
  from fx x_eq have fx': "m ?B False (cs1, b1, r1) = (cs, b', r') # rest'" by simp
  then obtain z zs where r1: "r1 = z # zs" "z = 0x0A"
    unfolding nls_then_heading by (cases r1) (auto split: if_splits)
  let ?tw = "takeWhile (\<lambda>c. c = 0x0A) r1"
  let ?dw = "dropWhile (\<lambda>c. c = 0x0A) r1"
  from fx' r1 have grp: "m (Group 5 heading) False (cs1, rev ?tw @ b1, ?dw) = (cs, b', r') # rest'"
    unfolding nls_then_heading by simp
  have "(case m (Group 5 heading) False (cs1, rev ?tw @ b1, ?dw) of [] \<Rightarrow> None | s # rest \<Rightarrow> Some s)
      = Some (cs, b', r')"
    unfolding grp by simp
  then have "(case headingSplit ?dw of None \<Rightarrow> None
      | Some (g, r'') \<Rightarrow> Some (cs1(5 \<mapsto> g), rev g @ rev ?tw @ b1, r'')) = Some (cs, b', r')"
    unfolding firstMatch_Group_heading .
  then obtain g where g: "headingSplit ?dw = Some (g, r')" "cs = cs1(5 \<mapsto> g)"
    by (cases "headingSplit ?dw") auto
  from headingSplit_append[OF g(1)] have dw: "?dw = g @ r'" .
  have "r1 = ?tw @ ?dw" by simp
  with y(2) dw have f1: "r = y @ ?tw @ g @ r'" by simp
  from r1 have f2: "?tw \<noteq> []" by simp
  have f3: "\<forall>c \<in> set ?tw. c = 0x0A" by (auto dest: set_takeWhileD)
  from g(1) dw have f4: "headingSplit (g @ r') = Some (g, r')" by simp
  from g(2) y(4) have f5: "cs 1 = Some y" "cs 5 = Some g" by simp_all
  from y_eq have f6: "y \<noteq> []" "hd y = 0x2D" by simp_all
  have "r = y @ ?tw @ g @ r' \<and> y \<noteq> [] \<and> hd y = 0x2D \<and> last y = 0x2D
           \<and> ?tw \<noteq> [] \<and> (\<forall>c \<in> set ?tw. c = 0x0A) \<and> headingSplit (g @ r') = Some (g, r')
           \<and> cs 1 = Some y \<and> cs 5 = Some g"
    using f1 f2 f3 f4 f5 f6 lasty by (intro conjI)
  then have "\<exists>y nls g. r = y @ nls @ g @ r' \<and> y \<noteq> [] \<and> hd y = 0x2D \<and> last y = 0x2D
           \<and> nls \<noteq> [] \<and> (\<forall>c \<in> set nls. c = 0x0A) \<and> headingSplit (g @ r') = Some (g, r')
           \<and> cs 1 = Some y \<and> cs 5 = Some g"
    by (intro exI)
  with ys(1) show ?thesis by (rule conjI)
qed

text \<open>Line 46 rewrites nothing, or the run of line feeds between the frontmatter and a heading.\<close>

lemma afterYaml_result:
  fixes t :: jsstring
  defines "out \<equiv> replaceFirst (source afterYaml) False [Ref 1, Lit NL, Ref 5] [] t"
  shows "out = t \<or> (\<exists>y nls g r'. t = y @ nls @ g @ r' \<and> out = y @ 0x0A # g @ r'
           \<and> y \<noteq> [] \<and> hd y = 0x2D \<and> last y = 0x2D
           \<and> nls \<noteq> [] \<and> (\<forall>c \<in> set nls. c = 0x0A) \<and> headingSplit (g @ r') = Some (g, r'))"
proof (cases "\<forall>pre suf. t = pre @ suf \<longrightarrow> firstMatch (source afterYaml) False (rev pre @ []) suf = None")
  case True
  from replaceFirst_none[OF True] show ?thesis by (simp add: out_def)
next
  case False
  then obtain pre suf v where ps: "t = pre @ suf"
    "firstMatch (source afterYaml) False (rev pre @ []) suf = Some v"
    by auto
  obtain cs b' r' where v: "v = (cs, b', r')" by (cases v)
  from fm_afterYaml_Some[OF ps(2)[unfolded v]] obtain y nls g
    where f: "rev pre @ [] = []" "suf = y @ nls @ g @ r'" "y \<noteq> []" "hd y = 0x2D" "last y = 0x2D"
      "nls \<noteq> []" "\<forall>c \<in> set nls. c = 0x0A" "headingSplit (g @ r') = Some (g, r')"
      "cs 1 = Some y" "cs 5 = Some g"
    by blast
  from f(1) have pre: "pre = []" by simp
  with ps v have "firstMatch (source afterYaml) False [] t = Some (cs, b', r')" by simp
  then have "out = expand [Ref 1, Lit NL, Ref 5] cs @ r'"
    by (simp add: out_def replaceFirst_unfold)
  with f(9,10) have "out = y @ 0x0A # g @ r'" by (simp add: NL_def)
  have "t = y @ nls @ g @ r' \<and> out = y @ 0x0A # g @ r'
           \<and> y \<noteq> [] \<and> hd y = 0x2D \<and> last y = 0x2D
           \<and> nls \<noteq> [] \<and> (\<forall>c \<in> set nls. c = 0x0A) \<and> headingSplit (g @ r') = Some (g, r')"
    using ps(1) pre f(2-8) \<open>out = y @ 0x0A # g @ r'\<close> by (intro conjI) simp_all
  then show ?thesis by (intro disjI2 exI)
qed

section \<open>Line 46 and the end of the text\<close>


lemma dropWhile_suffix:
  "ys \<noteq> [] \<Longrightarrow> \<not> P (hd ys) \<Longrightarrow> \<exists>pre. dropWhile P (xs @ ys) = pre @ ys"
proof (induction xs)
  case Nil
  then have "dropWhile P ys = ys" by (cases ys) simp_all
  then show ?case by simp
next
  case (Cons x xs)
  show ?case
  proof (cases "P x")
    case True
    with Cons show ?thesis by simp
  next
    case False
    then have "dropWhile P ((x # xs) @ ys) = (x # xs) @ ys" by simp
    then show ?thesis by blast
  qed
qed

lemma yaml_step_keeps_trailing:
  assumes t: "t = y @ nls @ g @ r'" and out: "out = y @ 0x0A # g @ r'"
    and y: "y \<noteq> []" "last y = 0x2D"
    and g: "headingSplit (g @ r') = Some (g, r')"
    and H: "headingThenBlank out"
  shows "headingThenBlank t"
proof -
  from H obtain pre g0 k where o: "out = pre @ g0 @ replicate (Suc k) 0x0A" and g0: "isHeading g0"
    unfolding headingThenBlank_def by blast
  let ?N = "replicate (Suc k) (0x0A::jschar)"
  from o out have eq: "(y @ [0x0A]) @ (g @ r') = pre @ (g0 @ ?N)"
    by (simp only: append_assoc append_Cons append_Nil)
  show ?thesis
  proof (cases "length (y @ [0x0A]) \<le> length pre")
    case True
    from append_split_ge[OF eq True] obtain q
      where q: "pre = (y @ [0x0A]) @ q" "g @ r' = q @ g0 @ ?N"
      by blast
    have "t = (y @ nls @ q) @ g0 @ ?N"
      unfolding t q(2) by simp
    with g0 show ?thesis
      unfolding headingThenBlank_def by blast
  next
    case False
    then have le: "length pre \<le> length y" by simp
    from eq have eq': "pre @ (g0 @ ?N) = y @ (0x0A # g @ r')"
      by (simp only: append_assoc append_Cons append_Nil)
    from append_split_ge[OF eq' le] obtain z
      where z: "y = pre @ z" "g0 @ ?N = z @ 0x0A # g @ r'"
      by blast
    from isHeading_shape[OF g0] obtain a w0 body0
      where sh: "g0 = replicate (Suc a) 0x23 @ w0 # body0" "isWhiteSpace w0"
        "\<forall>c \<in> set body0. \<not> isLineTerminator c"
      by blast
    from sh(2) have w0: "w0 \<noteq> 0x23" using not_isWhiteSpace_hash by auto
    from headingSplit_hd[OF g] have gne: "g \<noteq> []" "hd g = 0x23" by simp_all
    show ?thesis
    proof (cases "z = []")
      case True
      with z(2) sh(1) have "(0x23::jschar) = 0x0A" by simp
      then show ?thesis by simp
    next
      case False
      with z(1) y(2) have lastz: "last z = 0x2D" by simp
      define zh where "zh = takeWhile (\<lambda>c. c = 0x23) z"
      have nonhash: "\<exists>c \<in> set z. c \<noteq> 0x23"
      proof (rule ccontr)
        assume "\<not> (\<exists>c \<in> set z. c \<noteq> 0x23)"
        with False have "last z = 0x23" by (metis last_in_set)
        with lastz show False by simp
      qed
      then obtain c z2 where dz: "dropWhile (\<lambda>c. c = 0x23) z = c # z2"
        by (cases "dropWhile (\<lambda>c. c = 0x23) z") (auto simp: dropWhile_eq_Nil_conv)
      then have cne: "c \<noteq> 0x23" using hd_dropWhile[of "\<lambda>c. c = 0x23" z] by auto
      have zsplit: "z = zh @ c # z2"
        unfolding zh_def using dz by (metis takeWhile_dropWhile_id)
      have lhs: "takeWhile (\<lambda>c. c = 0x23) (g0 @ ?N) = replicate (Suc a) 0x23"
      proof -
        have "g0 @ ?N = replicate (Suc a) 0x23 @ (w0 # body0 @ ?N)" unfolding sh(1) by simp
        moreover have "takeWhile (\<lambda>c. c = 0x23) (replicate (Suc a) 0x23 @ (w0 # body0 @ ?N))
            = replicate (Suc a) 0x23"
          using w0 by (intro takeWhile_all) simp_all
        ultimately show ?thesis by simp
      qed
      from nonhash obtain c' where "c' \<in> set z" "\<not> c' = 0x23" by blast
      then have rhs: "takeWhile (\<lambda>c. c = 0x23) (z @ 0x0A # g @ r') = zh"
        unfolding zh_def by (rule takeWhile_append1)
      from lhs rhs z(2) have zh: "zh = replicate (Suc a) 0x23" by simp
      have "replicate (Suc a) 0x23 @ (w0 # body0 @ ?N) = replicate (Suc a) 0x23 @ (c # z2 @ 0x0A # g @ r')"
      proof -
        have "replicate (Suc a) 0x23 @ (w0 # body0 @ ?N) = g0 @ ?N" unfolding sh(1) by simp
        also have "\<dots> = z @ 0x0A # g @ r'" by (rule z(2))
        also have "\<dots> = zh @ (c # z2 @ 0x0A # g @ r')" unfolding zsplit by simp
        finally show ?thesis unfolding zh .
      qed
      then have b: "body0 @ ?N = z2 @ (0x0A # g @ r')" by simp
      have "dropWhile (\<lambda>c. \<not> isLineTerminator c) (body0 @ ?N) = ?N"
        using sh(3) by (intro dropWhile_all) (simp_all add: newline_isLineTerminator)
      moreover from dropWhile_suffix[of "0x0A # g @ r'" "\<lambda>c. \<not> isLineTerminator c" z2]
      obtain p where "dropWhile (\<lambda>c. \<not> isLineTerminator c) (z2 @ (0x0A # g @ r')) = p @ 0x0A # g @ r'"
        by (auto simp: newline_isLineTerminator)
      ultimately have "?N = p @ 0x0A # g @ r'" using b by simp
      then have "set (p @ 0x0A # g @ r') = set ?N" by simp
      moreover from gne have "0x23 \<in> set (p @ 0x0A # g @ r')" by (cases g) simp_all
      ultimately have "(0x23::jschar) \<in> set ?N" by simp
      then show ?thesis by simp
    qed
  qed
qed

section \<open>The last three rewrites of the callback\<close>


lemma flags [simp]:
  "global beforeFirstHeading = False" "multiline beforeFirstHeading = False"
  "global afterLastHeading = False" "multiline afterLastHeading = False"
  "global afterYaml = False" "multiline afterYaml = False"
  "global afterHeading = True" "multiline afterHeading = True"
  "global beforeHeading = True" "multiline beforeHeading = False"
  "global headingLine = True" "multiline headingLine = True"
  "global betweenHeadings = True" "multiline betweenHeadings = True"
  by (simp_all add: beforeFirstHeading_def afterLastHeading_def afterYaml_def afterHeading_def
      beforeHeading_def headingLine_def betweenHeadings_def)

definition firstPasses :: "options \<Rightarrow> jsstring \<Rightarrow> jsstring" where
  "firstPasses opts text0 =
     (let text =
        (if \<not> bottom opts then
           replace (replace text0 afterHeading [Ref 1, Lit NL]) beforeHeading [Lit NL, Lit NL, Ref 1]
         else
           replace (replace (replace text0 headingLine [Lit NL, Lit NL, Ref 1, Lit NL, Lit NL])
             beforeHeading [Lit NL, Lit NL, Ref 1]) afterHeading [Ref 1, Lit NL, Lit NL])
      in if \<not> emptyLineInBlankSections opts then removeBlankLinesBetweenHeadings text else text)"

lemma callback_split:
  "callback opts t =
     (let t4 = replaceFirst (source afterLastHeading) False [Ref 1] []
                 (replaceFirst (source beforeFirstHeading) False [Ref 1] [] (firstPasses opts t))
      in if \<not> emptyLineAfterYaml opts
         then replaceFirst (source afterYaml) False [Ref 1, Lit NL, Ref 5] [] t4 else t4)"
  by (simp add: callback_def firstPasses_def Let_def replace_def)

lemma blankThenHeading_of:
  assumes "out = replicate (Suc k) 0x0A @ g @ rest" "isHeading g"
  shows "blankThenHeading out"
proof -
  from assms(2) have hs: "headingSplit g = Some (g, [])" by (simp add: isHeading_def)
  from headingSplit_hd[OF hs] have g: "g \<noteq> []" "hd g = 0x23" by simp_all
  then have "g @ rest = [] \<or> \<not> (hd (g @ rest) = 0x0A)" by simp
  then have "dropWhile (\<lambda>c. c = 0x0A) (replicate (Suc k) 0x0A @ (g @ rest)) = g @ rest"
    by (intro dropWhile_all) simp_all
  moreover from hs have "headingSplit (g @ rest) \<noteq> None"
    by (intro headingSplit_mono) simp
  ultimately show ?thesis
    unfolding assms(1) blankThenHeading_def by simp
qed

lemma callback_edges:
  "\<not> blankThenHeading (callback opts t) \<and> \<not> headingThenBlank (callback opts t)"
proof -
  define t3a where "t3a = replaceFirst (source beforeFirstHeading) False [Ref 1] [] (firstPasses opts t)"
  define t3b where "t3b = replaceFirst (source afterLastHeading) False [Ref 1] [] t3a"
  define t4 where "t4 = replaceFirst (source afterYaml) False [Ref 1, Lit NL, Ref 5] [] t3b"
  have cb: "callback opts t = (if \<not> emptyLineAfterYaml opts then t4 else t3b)"
    by (simp add: callback_split t3a_def t3b_def t4_def Let_def)
  from beforeFirst_result[of "firstPasses opts t"] have a1: "\<not> blankThenHeading t3a"
    by (simp add: t3a_def)
  from afterLast_result[of t3a] obtain j
    where strip: "t3a = t3b @ replicate j 0x0A"
      and nomatch: "\<forall>p s. t3b = p @ s \<longrightarrow> firstMatch (source afterLastHeading) False (rev p) s = None"
    unfolding t3b_def by blast
  have b2: "\<not> headingThenBlank t3b"
  proof
    assume "headingThenBlank t3b"
    then obtain p s where ps: "t3b = p @ s"
      "firstMatch (source afterLastHeading) False (rev p) s \<noteq> None"
      unfolding headingThenBlank_iff by (elim exE conjE)
    from nomatch[rule_format, OF ps(1)] ps(2) show False by simp
  qed
  have b1: "\<not> blankThenHeading t3b"
  proof
    assume "blankThenHeading t3b"
    from blankThenHeading_append[OF this, of "replicate j 0x0A"] strip a1 show False by simp
  qed
  have "\<not> blankThenHeading t4 \<and> \<not> headingThenBlank t4"
  proof -
    from afterYaml_result[of t3b] have "t4 = t3b \<or> (\<exists>y nls g r'. t3b = y @ nls @ g @ r' \<and> t4 = y @ 0x0A # g @ r'
           \<and> y \<noteq> [] \<and> hd y = 0x2D \<and> last y = 0x2D
           \<and> nls \<noteq> [] \<and> (\<forall>c \<in> set nls. c = 0x0A) \<and> headingSplit (g @ r') = Some (g, r'))"
      unfolding t4_def .
    then show ?thesis
    proof
      assume "t4 = t3b"
      with b1 b2 show ?thesis by simp
    next
      assume "\<exists>y nls g r'. t3b = y @ nls @ g @ r' \<and> t4 = y @ 0x0A # g @ r'
           \<and> y \<noteq> [] \<and> hd y = 0x2D \<and> last y = 0x2D
           \<and> nls \<noteq> [] \<and> (\<forall>c \<in> set nls. c = 0x0A) \<and> headingSplit (g @ r') = Some (g, r')"
      then obtain y nls g r' where f: "t3b = y @ nls @ g @ r'" "t4 = y @ 0x0A # g @ r'"
        "y \<noteq> []" "hd y = 0x2D" "last y = 0x2D" "headingSplit (g @ r') = Some (g, r')"
        by blast
      from f(3,4) obtain y' where "y = 0x2D # y'" by (cases y) simp_all
      with f(2) have "\<not> blankThenHeading t4"
        by (simp add: blankThenHeading_def)
      moreover have "\<not> headingThenBlank t4"
        using yaml_step_keeps_trailing[OF f(1) f(2) f(3) f(5) f(6)] b2 by blast
      ultimately show ?thesis by simp
    qed
  qed
  with b1 b2 cb show ?thesis by simp
qed

lemma afterLast_no_newline:
  assumes "t = [] \<or> last t \<noteq> 0x0A"
  shows "replace t afterLastHeading [Ref 1] = t"
proof -
  have "\<forall>pre suf. t = pre @ suf \<longrightarrow> firstMatch (source afterLastHeading) False (rev pre @ []) suf = None"
  proof (intro allI impI, rule ccontr)
    fix pre suf
    assume t: "t = pre @ suf"
    assume "firstMatch (source afterLastHeading) False (rev pre @ []) suf \<noteq> None"
    then obtain v where "firstMatch (source afterLastHeading) False (rev pre @ []) suf = Some v"
      by auto
    from fm_afterLast_Some[OF this] obtain g nls
      where h: "headingSplit suf = Some (g, nls)" "nls \<noteq> []" "\<forall>c \<in> set nls. c = 0x0A"
      by blast
    from headingSplit_append[OF h(1)] t h(2) have "t \<noteq> []" "last t = last nls" by simp_all
    moreover from h(2,3) have "last nls = 0x0A" by (metis last_in_set)
    ultimately show False using assms by simp
  qed
  from replaceFirst_none[OF this] show ?thesis
    by (simp add: replace_def)
qed

section \<open>Lines and line feeds\<close>


text \<open>
  The lines of a text that hold something. A line ends at a line terminator of the host
  language, which is where \<^verbatim>\<open>.\<close> stops and where \<^verbatim>\<open>^\<close> with the \<^verbatim>\<open>m\<close> flag matches.
  The first argument is the line read so far.
\<close>

fun segs :: "jsstring \<Rightarrow> jsstring \<Rightarrow> jsstring list" where
  "segs c [] = (if c = [] then [] else [c])"
| "segs c (x # xs) =
     (if isLineTerminator x then (if c = [] then [] else [c]) @ segs [] xs
      else segs (c @ [x]) xs)"

definition textLines :: "jsstring \<Rightarrow> jsstring list" where
  "textLines t = segs [] t"

lemma segs_cong:
  "(\<And>c. segs c X = segs c Y) \<Longrightarrow> segs c (u @ X) = segs c (u @ Y)"
  by (induction u arbitrary: c) simp_all

lemma segs_nls:
  "segs c (replicate (Suc j) 0x0A @ X) = segs c (0x0A # X)"
  by (induction j) (simp_all add: newline_isLineTerminator)

lemma segs_nl_run:
  assumes "nls \<noteq> []" "\<forall>x \<in> set nls. x = 0x0A"
  shows "segs c (nls @ X) = segs c (0x0A # X)"
proof -
  from assms(1) obtain j where "length nls = Suc j" by (cases nls) simp_all
  with all_nl_replicate[OF assms(2)] have "nls = replicate (Suc j) 0x0A" by simp
  then show ?thesis by (simp only: segs_nls)
qed

lemma replaceAll_unfold:
  "replaceAll re ml t b r
     = (case firstMatch re ml b r of
          None \<Rightarrow> (case r of [] \<Rightarrow> [] | x # xs \<Rightarrow> x # replaceAll re ml t (x # b) xs)
        | Some (cs, b', r') \<Rightarrow>
            if length r' < length r then expand t cs @ replaceAll re ml t b' r'
            else expand t cs @ (case r of [] \<Rightarrow> [] | x # xs \<Rightarrow> x # replaceAll re ml t (x # b) xs))"
  by (subst replaceAll.simps) (simp add: firstMatch_def split: list.splits)

text \<open>
  A global replacement keeps the lines when each of its matches does, whatever stands
  before and behind the match.
\<close>

lemma replaceAll_segs:
  assumes step: "\<And>b r cs b' r'. firstMatch re ml b r = Some (cs, b', r') \<Longrightarrow>
      length r' < length r \<and> (\<exists>u. r = u @ r' \<and> (\<forall>c X. segs c (expand t cs @ X) = segs c (u @ X)))"
  shows "segs c (replaceAll re ml t b r) = segs c r"
proof (induction "length r" arbitrary: b r c rule: less_induct)
  case less
  show ?case
  proof (cases "firstMatch re ml b r")
    case None
    show ?thesis
    proof (cases r)
      case Nil
      with None show ?thesis by (simp add: replaceAll_unfold)
    next
      case (Cons x xs)
      have "\<And>c. segs c (replaceAll re ml t (x # b) xs) = segs c xs"
        using less[of xs] Cons by simp
      from segs_cong[of "replaceAll re ml t (x # b) xs" xs c "[x]", OF this] None Cons
      show ?thesis by (simp add: replaceAll_unfold)
    qed
  next
    case (Some v)
    obtain cs b' r' where v: "v = (cs, b', r')" by (cases v)
    from step[OF Some[unfolded v]] obtain u
      where lt: "length r' < length r" and u: "r = u @ r'"
        and loc: "\<forall>c X. segs c (expand t cs @ X) = segs c (u @ X)"
      by blast
    have ih: "\<And>c. segs c (replaceAll re ml t b' r') = segs c r'"
      using less[OF lt] by simp
    have "replaceAll re ml t b r = expand t cs @ replaceAll re ml t b' r'"
      using Some v lt by (simp add: replaceAll_unfold)
    then have "segs c (replaceAll re ml t b r) = segs c (u @ replaceAll re ml t b' r')"
      using loc by simp
    also have "\<dots> = segs c (u @ r')"
      by (rule segs_cong) (rule ih)
    finally show ?thesis unfolding u .
  qed
qed


text \<open>\<^verbatim>\<open>(#+\s.*)\n\n+(#+\s.*)\<close> at a position.\<close>

lemma m_nl_then:
  "m (Seq nl q) ml (cs, b, r)
     = (case r of [] \<Rightarrow> [] | x # xs \<Rightarrow> if x = 0x0A then m q ml (cs, x # b, xs) else [])"
  by (cases r) (simp_all add: m.simps nl_def)

lemma m_betweenHeadings:
  "m (source betweenHeadings) ml (cs, b, r)
     = (case headingSplit r of None \<Rightarrow> []
        | Some (g, r1) \<Rightarrow>
            (case r1 of [] \<Rightarrow> [] | x # xs \<Rightarrow>
               if x = 0x0A then
                 (case xs of [] \<Rightarrow> [] | y # ys \<Rightarrow>
                    if y = 0x0A
                    then m (Group 2 heading) ml
                           (cs(1 \<mapsto> g), rev (takeWhile (\<lambda>c. c = 0x0A) xs) @ x # rev g @ b,
                            dropWhile (\<lambda>c. c = 0x0A) xs)
                    else [])
               else []))"
proof -
  let ?q = "Seq nl (Seq (Plus nl) (Group 2 heading))"
  have src: "source betweenHeadings = Seq (Group 1 heading) ?q"
    by (simp add: betweenHeadings_def)
  have blocked: "\<And>s. nextIs (\<lambda>c. \<not> isLineTerminator c) s \<Longrightarrow> m ?q ml s = []"
    by (rule blocked_Seq) (rule blocked_nl)
  have "m (Seq (Group 1 heading) ?q) ml (cs, b, r)
      = (case headingSplit r of None \<Rightarrow> []
         | Some (g, r1) \<Rightarrow> m ?q ml (cs(1 \<mapsto> g), rev g @ b, r1))"
    by (rule heading_then) (rule blocked)
  then show ?thesis
    unfolding src
    by (simp add: m_nl_then nls_then_heading split: option.splits prod.splits list.splits)
qed

lemma fm_between_Some:
  assumes "firstMatch (source betweenHeadings) ml b r = Some (cs, b', r')"
  shows "\<exists>g1 nls g2. headingSplit r = Some (g1, 0x0A # nls @ g2 @ r')
           \<and> nls \<noteq> [] \<and> (\<forall>c \<in> set nls. c = 0x0A)
           \<and> headingSplit (g2 @ r') = Some (g2, r')
           \<and> cs 1 = Some g1 \<and> cs 2 = Some g2"
proof -
  from assms obtain g1 r1 where h1: "headingSplit r = Some (g1, r1)"
    unfolding firstMatch_def m_betweenHeadings by (cases "headingSplit r") auto
  from assms h1 obtain x xs where r1: "r1 = x # xs" "x = 0x0A"
    unfolding firstMatch_def m_betweenHeadings by (cases r1) (auto split: if_splits)
  from assms h1 r1 obtain y ys where xs: "xs = y # ys" "y = 0x0A"
    unfolding firstMatch_def m_betweenHeadings by (cases xs) (auto split: if_splits)
  let ?tw = "takeWhile (\<lambda>c. c = 0x0A) xs"
  let ?dw = "dropWhile (\<lambda>c. c = 0x0A) xs"
  from assms h1 r1 xs
  have "(case m (Group 2 heading) ml ([1 \<mapsto> g1], rev ?tw @ x # rev g1 @ b, ?dw)
           of [] \<Rightarrow> None | s # rest \<Rightarrow> Some s) = Some (cs, b', r')"
    unfolding firstMatch_def m_betweenHeadings by simp
  then have "(case headingSplit ?dw of None \<Rightarrow> None
      | Some (g, r'') \<Rightarrow> Some ([1 \<mapsto> g1, 2 \<mapsto> g], rev g @ rev ?tw @ x # rev g1 @ b, r''))
      = Some (cs, b', r')"
    unfolding firstMatch_Group_heading .
  then obtain g2 where g2: "headingSplit ?dw = Some (g2, r')" "cs = [1 \<mapsto> g1, 2 \<mapsto> g2]"
    by (cases "headingSplit ?dw") auto
  from headingSplit_append[OF g2(1)] have dw: "?dw = g2 @ r'" .
  have "xs = ?tw @ ?dw" by simp
  with dw have f1: "xs = ?tw @ g2 @ r'" by simp
  from xs have f2: "?tw \<noteq> []" by simp
  have f3: "\<forall>c \<in> set ?tw. c = 0x0A" by (auto dest: set_takeWhileD)
  from g2(1) dw have f4: "headingSplit (g2 @ r') = Some (g2, r')" by simp
  from h1 r1 f1 have f0: "headingSplit r = Some (g1, 0x0A # ?tw @ g2 @ r')" by simp
  from g2(2) have f5: "cs 1 = Some g1" "cs 2 = Some g2" by simp_all
  have "headingSplit r = Some (g1, 0x0A # ?tw @ g2 @ r')
           \<and> ?tw \<noteq> [] \<and> (\<forall>c \<in> set ?tw. c = 0x0A)
           \<and> headingSplit (g2 @ r') = Some (g2, r')
           \<and> cs 1 = Some g1 \<and> cs 2 = Some g2"
    using f0 f2 f3 f4 f5 by (intro conjI)
  then show ?thesis by (intro exI)
qed

lemma fm_between_of:
  assumes "headingSplit r = Some (g1, 0x0A # 0x0A # rest)"
    and "headingSplit (dropWhile (\<lambda>c. c = 0x0A) rest) \<noteq> None"
  shows "m (source betweenHeadings) ml (cs, b, r) \<noteq> []"
proof -
  from assms(2) obtain g2 r2 where h2: "headingSplit (dropWhile (\<lambda>c. c = 0x0A) rest) = Some (g2, r2)"
    by auto
  from Group_heading_Some[OF h2] obtain others where
    "m (Group 2 heading) ml (cs(1 \<mapsto> g1),
        rev (takeWhile (\<lambda>c. c = 0x0A) (0x0A # rest)) @ 0x0A # rev g1 @ b, dropWhile (\<lambda>c. c = 0x0A) rest)
      = ((cs(1 \<mapsto> g1))(2 \<mapsto> g2),
          rev g2 @ rev (takeWhile (\<lambda>c. c = 0x0A) (0x0A # rest)) @ 0x0A # rev g1 @ b, r2) # others"
    by blast
  with assms(1) show ?thesis
    unfolding m_betweenHeadings by simp
qed


text \<open>Each pass of the callback keeps the lines.\<close>

lemma afterHeading_segs:
  assumes "t = [Ref 1, Lit NL] \<or> t = [Ref 1, Lit NL, Lit NL]"
  shows "segs c (replaceAll (source afterHeading) True t b r) = segs c r"
proof (rule replaceAll_segs)
  fix b r cs b' r'
  assume fm: "firstMatch (source afterHeading) True b r = Some (cs, b', r')"
  from fm obtain g r1 where h: "headingSplit r = Some (g, r1)"
    unfolding firstMatch_afterHeading by (cases "headingSplit r") (auto split: if_splits)
  from fm h obtain x xs where r1: "r1 = x # xs" "x = 0x0A"
    unfolding firstMatch_afterHeading by (cases r1) (auto split: if_splits)
  let ?tw = "takeWhile (\<lambda>c. c = 0x0A) r1"
  from fm h r1 have cs: "cs = [1 \<mapsto> g]" and r': "r' = dropWhile (\<lambda>c. c = 0x0A) r1"
    unfolding firstMatch_afterHeading by (auto split: if_splits)
  have "r1 = ?tw @ r'" unfolding r' by simp
  with headingSplit_append[OF h] have r: "r = (g @ ?tw) @ r'" by simp
  from r1 have tw: "?tw \<noteq> []" "\<forall>c \<in> set ?tw. c = 0x0A" by (auto dest: set_takeWhileD)
  have loc: "\<forall>c X. segs c (expand t cs @ X) = segs c ((g @ ?tw) @ X)"
  proof (intro allI)
    fix c X
    have e: "\<And>c. segs c (?tw @ X) = segs c (0x0A # X)"
      by (rule segs_nl_run[OF tw])
    from assms show "segs c (expand t cs @ X) = segs c ((g @ ?tw) @ X)"
    proof
      assume "t = [Ref 1, Lit NL]"
      then have "expand t cs @ X = g @ 0x0A # X" by (simp add: cs NL_def)
      moreover have "segs c (g @ 0x0A # X) = segs c (g @ ?tw @ X)"
        by (rule segs_cong) (simp only: e)
      ultimately show ?thesis by simp
    next
      assume "t = [Ref 1, Lit NL, Lit NL]"
      then have "expand t cs @ X = g @ replicate (Suc 1) 0x0A @ X" by (simp add: cs NL_def)
      moreover have "segs c (g @ replicate (Suc 1) 0x0A @ X) = segs c (g @ ?tw @ X)"
        by (rule segs_cong) (simp only: e segs_nls)
      ultimately show ?thesis by simp
    qed
  qed
  from r tw(1) have "length r' < length r" by simp
  with r loc show "length r' < length r
      \<and> (\<exists>u. r = u @ r' \<and> (\<forall>c X. segs c (expand t cs @ X) = segs c (u @ X)))"
    by blast
qed

lemma beforeHeading_segs:
  "segs c (replaceAll (source beforeHeading) False [Lit NL, Lit NL, Ref 1] b r) = segs c r"
proof (rule replaceAll_segs)
  fix b r cs b' r'
  assume fm: "firstMatch (source beforeHeading) False b r = Some (cs, b', r')"
  from fm obtain x xs where r0: "r = x # xs" "x = 0x0A"
    unfolding firstMatch_beforeHeading by (cases r) (auto split: if_splits)
  let ?tw = "takeWhile (\<lambda>c. c = 0x0A) r"
  let ?dw = "dropWhile (\<lambda>c. c = 0x0A) r"
  from fm r0 obtain g where h: "headingSplit ?dw = Some (g, r')" and cs: "cs = [1 \<mapsto> g]"
    unfolding firstMatch_beforeHeading by (cases "headingSplit ?dw") (auto split: if_splits)
  have "r = ?tw @ ?dw" by simp
  with headingSplit_append[OF h] have r: "r = (?tw @ g) @ r'" by simp
  from r0 have tw: "?tw \<noteq> []" "\<forall>c \<in> set ?tw. c = 0x0A" by (auto dest: set_takeWhileD)
  have loc: "\<forall>c X. segs c (expand [Lit NL, Lit NL, Ref 1] cs @ X) = segs c ((?tw @ g) @ X)"
  proof (intro allI)
    fix c X
    have "expand [Lit NL, Lit NL, Ref 1] cs @ X = replicate (Suc 1) 0x0A @ g @ X"
      by (simp add: cs NL_def)
    moreover have "segs c (replicate (Suc 1) 0x0A @ g @ X) = segs c (0x0A # g @ X)"
      by (rule segs_nls)
    moreover have "segs c (?tw @ g @ X) = segs c (0x0A # g @ X)"
      by (rule segs_nl_run[OF tw])
    ultimately show "segs c (expand [Lit NL, Lit NL, Ref 1] cs @ X) = segs c ((?tw @ g) @ X)"
      by simp
  qed
  from arg_cong[OF r, of length] tw(1) have "length r' < length r" by simp
  moreover from r loc
  have "\<exists>u. r = u @ r' \<and> (\<forall>c X. segs c (expand [Lit NL, Lit NL, Ref 1] cs @ X) = segs c (u @ X))"
    by (intro exI[of _ "?tw @ g"] conjI)
  ultimately show "length r' < length r
      \<and> (\<exists>u. r = u @ r' \<and> (\<forall>c X. segs c (expand [Lit NL, Lit NL, Ref 1] cs @ X) = segs c (u @ X)))"
    by (rule conjI)
qed

lemma betweenHeadings_segs:
  "segs c (replaceAll (source betweenHeadings) True [Ref 1, Lit NL, Ref 2] b r) = segs c r"
proof (rule replaceAll_segs)
  fix b r cs b' r'
  assume fm: "firstMatch (source betweenHeadings) True b r = Some (cs, b', r')"
  from fm_between_Some[OF fm] obtain g1 nls g2
    where h: "headingSplit r = Some (g1, 0x0A # nls @ g2 @ r')"
      and nls: "nls \<noteq> []" "\<forall>c \<in> set nls. c = 0x0A"
      and cs: "cs 1 = Some g1" "cs 2 = Some g2"
    by blast
  from headingSplit_append[OF h] have r: "r = (g1 @ 0x0A # nls @ g2) @ r'" by simp
  have loc: "\<forall>c X. segs c (expand [Ref 1, Lit NL, Ref 2] cs @ X) = segs c ((g1 @ 0x0A # nls @ g2) @ X)"
  proof (intro allI)
    fix c X
    have run: "0x0A # nls \<noteq> []" "\<forall>x \<in> set (0x0A # nls). x = 0x0A" using nls by simp_all
    have e: "\<And>c. segs c ((0x0A # nls) @ g2 @ X) = segs c (0x0A # g2 @ X)"
      by (rule segs_nl_run[OF run])
    have "expand [Ref 1, Lit NL, Ref 2] cs @ X = g1 @ 0x0A # g2 @ X"
      using cs by (simp add: NL_def)
    moreover have "segs c (g1 @ 0x0A # g2 @ X) = segs c (g1 @ (0x0A # nls) @ g2 @ X)"
      by (rule segs_cong) (simp only: e)
    ultimately show "segs c (expand [Ref 1, Lit NL, Ref 2] cs @ X) = segs c ((g1 @ 0x0A # nls @ g2) @ X)"
      by simp
  qed
  from r have "length r' < length r" by simp
  with r loc show "length r' < length r
      \<and> (\<exists>u. r = u @ r' \<and> (\<forall>c X. segs c (expand [Ref 1, Lit NL, Ref 2] cs @ X) = segs c (u @ X)))"
    by blast
qed

text \<open>
  \<^verbatim>\<open>/^(#+\s.*)/gm\<close> puts line feeds on both sides of a heading that starts a line; the
  heading ends where its line ends, so the line feeds fall between two lines.
\<close>

lemma segs_Cons_cur:
  "segs (rev (takeWhile (\<lambda>c. \<not> isLineTerminator c) b)) (x # Z)
     = (if isLineTerminator x \<and> takeWhile (\<lambda>c. \<not> isLineTerminator c) b \<noteq> []
        then [rev (takeWhile (\<lambda>c. \<not> isLineTerminator c) b)] else [])
       @ segs (rev (takeWhile (\<lambda>c. \<not> isLineTerminator c) (x # b))) Z"
  by simp

lemma headingLine_segs:
  "segs (rev (takeWhile (\<lambda>c. \<not> isLineTerminator c) b))
        (replaceAll (source headingLine) True [Lit NL, Lit NL, Ref 1, Lit NL, Lit NL] b r)
     = segs (rev (takeWhile (\<lambda>c. \<not> isLineTerminator c) b)) r"
proof (induction "length r" arbitrary: b r rule: less_induct)
  case less
  let ?T = "[Lit NL, Lit NL, Ref 1, Lit NL, Lit NL]"
  let ?RA = "replaceAll (source headingLine) True ?T"
  show ?case
  proof (cases "firstMatch (source headingLine) True b r")
    case None
    show ?thesis
    proof (cases r)
      case Nil
      with None show ?thesis by (simp add: replaceAll_unfold)
    next
      case (Cons x xs)
      from less[of xs "x # b"] Cons
      have ih: "segs (rev (takeWhile (\<lambda>c. \<not> isLineTerminator c) (x # b))) (?RA (x # b) xs)
          = segs (rev (takeWhile (\<lambda>c. \<not> isLineTerminator c) (x # b))) xs"
        by simp
      from None Cons have "?RA b r = x # ?RA (x # b) xs"
        by (simp add: replaceAll_unfold)
      then show ?thesis
        unfolding Cons by (simp only: segs_Cons_cur ih)
    qed
  next
    case (Some v)
    then have bl: "bol True b"
      unfolding firstMatch_headingLine by (auto split: if_splits)
    with Some obtain g r' where h: "headingSplit r = Some (g, r')"
      and v: "v = ([1 \<mapsto> g], rev g @ b, r')"
      unfolding firstMatch_headingLine by (cases "headingSplit r") auto
    from headingSplit_append[OF h] have r: "r = g @ r'" .
    from headingSplit_hd[OF h] have g: "g \<noteq> []" by simp
    with r have lt: "length r' < length r" by simp
    from bl have cur: "takeWhile (\<lambda>c. \<not> isLineTerminator c) b = []"
      by (cases b) (simp_all add: bol_def)
    from Some v lt have out: "?RA b r = 0x0A # 0x0A # g @ 0x0A # 0x0A # ?RA (rev g @ b) r'"
      by (simp add: replaceAll_unfold NL_def)
    from headingSplit_shape[OF h] have edge: "r' = [] \<or> isLineTerminator (hd r')" by blast
    have K: "\<And>c. segs c (0x0A # 0x0A # ?RA (rev g @ b) r') = segs c r'"
    proof (cases r')
      case Nil
      fix c
      have "firstMatch (source headingLine) True (rev g @ b) [] = None"
        unfolding firstMatch_headingLine by (simp add: headingSplit_def)
      then have "?RA (rev g @ b) [] = []" by (simp add: replaceAll_unfold)
      with Nil show "segs c (0x0A # 0x0A # ?RA (rev g @ b) r') = segs c r'"
        by (simp add: newline_isLineTerminator)
    next
      case (Cons x xs)
      fix c
      from edge Cons have lx: "isLineTerminator x" by simp
      then have "x \<noteq> 0x23" by (auto simp: isLineTerminator_def)
      with headingSplit_hash[of x xs] have "headingSplit (x # xs) = None"
        by (cases "headingSplit (x # xs)") simp_all
      then have "firstMatch (source headingLine) True (rev g @ b) (x # xs) = None"
        unfolding firstMatch_headingLine by simp
      then have ra: "?RA (rev g @ b) (x # xs) = x # ?RA (x # rev g @ b) xs"
        by (simp add: replaceAll_unfold)
      from Cons lt have "length xs < length r" by simp
      from less[OF this, of "x # rev g @ b"] lx
      have "segs [] (?RA (x # rev g @ b) xs) = segs [] xs" by simp
      with lx show "segs c (0x0A # 0x0A # ?RA (rev g @ b) r') = segs c r'"
        unfolding Cons ra by (simp add: newline_isLineTerminator)
    qed
    have "segs [] (?RA b r) = segs [] (g @ 0x0A # 0x0A # ?RA (rev g @ b) r')"
      unfolding out by (simp add: newline_isLineTerminator)
    also have "\<dots> = segs [] (g @ r')"
      by (rule segs_cong) (rule K)
    finally show ?thesis unfolding cur r by simp
  qed
qed

lemma segs_only_nls: "segs c (replicate j 0x0A) = (if c = [] then [] else [c])"
  by (induction j arbitrary: c) (simp_all add: newline_isLineTerminator)

lemma segs_trailing: "segs c (u @ replicate j 0x0A) = segs c u"
  by (induction u arbitrary: c) (simp_all add: segs_only_nls)

lemma segs_leading: "segs [] (replicate j 0x0A @ u) = segs [] u"
  by (induction j) (simp_all add: newline_isLineTerminator)

lemma removeBlankLinesBetweenHeadings_segs:
  "segs c (removeBlankLinesBetweenHeadings t) = segs c t"
proof (induction t rule: removeBlankLinesBetweenHeadings.induct)
  case (1 s)
  show ?case
  proof (cases "match s betweenHeadings")
    case True
    have "segs c (replace s betweenHeadings [Ref 1, Lit NL, Ref 2]) = segs c s"
      by (simp only: replace_def flags if_True betweenHeadings_segs)
    with 1[OF True] True show ?thesis
      by (subst removeBlankLinesBetweenHeadings.simps) (simp only: if_True)
  next
    case False
    then show ?thesis by (subst removeBlankLinesBetweenHeadings.simps) simp
  qed
qed

lemma firstPasses_lines: "textLines (firstPasses opts t) = textLines t"
proof -
  have a1: "\<And>s. segs [] (replace s afterHeading [Ref 1, Lit NL]) = segs [] s"
    by (simp only: replace_def flags if_True) (rule afterHeading_segs, simp)
  have a2: "\<And>s. segs [] (replace s afterHeading [Ref 1, Lit NL, Lit NL]) = segs [] s"
    by (simp only: replace_def flags if_True) (rule afterHeading_segs, simp)
  have b: "\<And>s. segs [] (replace s beforeHeading [Lit NL, Lit NL, Ref 1]) = segs [] s"
    by (simp only: replace_def flags if_True beforeHeading_segs)
  have h: "\<And>s. segs [] (replace s headingLine [Lit NL, Lit NL, Ref 1, Lit NL, Lit NL]) = segs [] s"
    using headingLine_segs[of "[]"]
    by (simp only: replace_def flags if_True takeWhile.simps rev.simps)
  show ?thesis
    unfolding textLines_def firstPasses_def Let_def
    by (simp only: removeBlankLinesBetweenHeadings_segs a1 a2 b h if_distrib[of "segs []"] if_cancel)
qed

text \<open>The callback keeps the lines of the text: it adds and removes line feeds only.\<close>

lemma callback_lines: "textLines (callback opts t) = textLines t"
proof -
  define t3a where "t3a = replaceFirst (source beforeFirstHeading) False [Ref 1] [] (firstPasses opts t)"
  define t3b where "t3b = replaceFirst (source afterLastHeading) False [Ref 1] [] t3a"
  define t4 where "t4 = replaceFirst (source afterYaml) False [Ref 1, Lit NL, Ref 5] [] t3b"
  have cb: "callback opts t = (if \<not> emptyLineAfterYaml opts then t4 else t3b)"
    by (simp add: callback_split t3a_def t3b_def t4_def Let_def)
  from beforeFirst_result[of "firstPasses opts t"] obtain j
    where "firstPasses opts t = replicate j 0x0A @ t3a"
    unfolding t3a_def by blast
  then have l1: "segs [] t3a = segs [] t"
    using firstPasses_lines[of opts t] segs_leading[of j t3a] by (simp add: textLines_def)
  from afterLast_result[of t3a] obtain j' where "t3a = t3b @ replicate j' 0x0A"
    unfolding t3b_def by blast
  then have l2: "segs [] t3b = segs [] t3a"
    using segs_trailing[of "[]" t3b j'] by simp
  have l3: "segs [] t4 = segs [] t3b"
  proof -
    from afterYaml_result[of t3b] have "t4 = t3b \<or> (\<exists>y nls g r'. t3b = y @ nls @ g @ r' \<and> t4 = y @ 0x0A # g @ r'
           \<and> y \<noteq> [] \<and> hd y = 0x2D \<and> last y = 0x2D
           \<and> nls \<noteq> [] \<and> (\<forall>c \<in> set nls. c = 0x0A) \<and> headingSplit (g @ r') = Some (g, r'))"
      unfolding t4_def .
    then show ?thesis
    proof
      assume "t4 = t3b"
      then show ?thesis by simp
    next
      assume "\<exists>y nls g r'. t3b = y @ nls @ g @ r' \<and> t4 = y @ 0x0A # g @ r'
           \<and> y \<noteq> [] \<and> hd y = 0x2D \<and> last y = 0x2D
           \<and> nls \<noteq> [] \<and> (\<forall>c \<in> set nls. c = 0x0A) \<and> headingSplit (g @ r') = Some (g, r')"
      then obtain y nls g r' where f: "t3b = y @ nls @ g @ r'" "t4 = y @ 0x0A # g @ r'"
        "nls \<noteq> []" "\<forall>c \<in> set nls. c = 0x0A"
        by blast
      have "segs [] (y @ 0x0A # g @ r') = segs [] (y @ nls @ g @ r')"
        by (rule segs_cong) (simp only: segs_nl_run[OF f(3,4)])
      with f(1,2) show ?thesis by simp
    qed
  qed
  from cb l1 l2 l3 show ?thesis by (simp add: textLines_def)
qed

section \<open>Blank sections\<close>


text \<open>
  A blank section starts at a text when a heading starts it, two line feeds or more
  follow the heading, and a heading follows the line feeds: what
  \<^verbatim>\<open>(#+\s.*)\n\n+(#+\s.*)\<close> matches at its start.
\<close>

definition sectionAt :: "jsstring \<Rightarrow> bool" where
  "sectionAt s =
     (case headingSplit s of
        None \<Rightarrow> False
      | Some (g, r1) \<Rightarrow>
          (case r1 of
             x # y # ys \<Rightarrow> x = 0x0A \<and> y = 0x0A \<and> headingSplit (dropWhile (\<lambda>c. c = 0x0A) ys) \<noteq> None
           | _ \<Rightarrow> False))"

definition hasSection :: "jsstring \<Rightarrow> bool" where
  "hasSection t = (\<exists>p s. t = p @ s \<and> sectionAt s)"

lemma sectionAt_iff:
  "sectionAt s \<longleftrightarrow> (\<exists>g ys. headingSplit s = Some (g, 0x0A # 0x0A # ys)
      \<and> headingSplit (dropWhile (\<lambda>c. c = 0x0A) ys) \<noteq> None)"
  unfolding sectionAt_def
  by (auto split: option.splits list.splits)

lemma sectionAt_m:
  assumes "sectionAt s"
  shows "m (source betweenHeadings) ml (cs, b, s) \<noteq> []"
proof -
  from assms obtain g ys where "headingSplit s = Some (g, 0x0A # 0x0A # ys)"
    "headingSplit (dropWhile (\<lambda>c. c = 0x0A) ys) \<noteq> None"
    unfolding sectionAt_iff by blast
  then show ?thesis by (rule fm_between_of)
qed

lemma test_split:
  "m re ml (Map.empty, rev pre @ b, suf) \<noteq> [] \<Longrightarrow> test re ml b (pre @ suf)"
proof (induction pre arbitrary: b)
  case Nil
  then show ?case by (subst test.simps) simp
next
  case (Cons x pre)
  from Cons.prems have "m re ml (Map.empty, rev pre @ x # b, suf) \<noteq> []" by simp
  from Cons.IH[OF this] show ?case by (subst test.simps) simp
qed

lemma hasSection_match: "hasSection t \<Longrightarrow> match t betweenHeadings"
proof -
  assume "hasSection t"
  then obtain p s where t: "t = p @ s" and s: "sectionAt s"
    unfolding hasSection_def by blast
  from sectionAt_m[OF s] have "m (source betweenHeadings) True (Map.empty, rev p @ [], s) \<noteq> []" .
  from test_split[OF this] t show ?thesis
    by (simp only: match_def flags)
qed

text \<open>The loop of lines 38 to 40 stops when the pattern matches nowhere.\<close>

lemma loop_exit: "\<not> match (removeBlankLinesBetweenHeadings t) betweenHeadings"
proof (induction t rule: removeBlankLinesBetweenHeadings.induct)
  case (1 s)
  show ?case
  proof (cases "match s betweenHeadings")
    case True
    from 1[OF True] True show ?thesis
      by (subst removeBlankLinesBetweenHeadings.simps) simp
  next
    case False
    then show ?thesis
      by (subst removeBlankLinesBetweenHeadings.simps) simp
  qed
qed

lemma headingSplit_rest:
  assumes "headingSplit s = Some (g, r1)" "r2 = [] \<or> isLineTerminator (hd r2)"
  shows "headingSplit (g @ r2) = Some (g, r2)"
proof -
  from headingSplit_shape[OF assms(1)] obtain a w body
    where s: "g = replicate (Suc a) 0x23 @ w # body" "isWhiteSpace w"
      "\<forall>c \<in> set body. \<not> isLineTerminator c"
    by blast
  from headingSplit_of_shape[OF s(2) s(3) assms(2), of a] s(1) show ?thesis by simp
qed

lemma headingSplit_prefix:
  assumes "headingSplit (D @ rest) \<noteq> None" "D \<noteq> []" "last D \<noteq> 0x23"
  shows "headingSplit D \<noteq> None"
proof -
  from assms(2) obtain x xs where D: "D = x # xs" by (cases D) simp_all
  from assms(1) D have x: "x = 0x23"
    by (auto simp: headingSplit_def split: if_splits)
  from assms(1) D x obtain w r2 where d: "dropWhile (\<lambda>c. c = 0x23) (xs @ rest) = w # r2"
    and w: "isWhiteSpace w"
    by (auto simp: headingSplit_def split: list.splits if_splits)
  have "\<not> (\<forall>c \<in> set xs. c = 0x23)"
  proof
    assume "\<forall>c \<in> set xs. c = 0x23"
    with x D have "\<forall>c \<in> set D. c = 0x23" by simp
    with assms(2) have "last D = 0x23" using last_in_set by blast
    with assms(3) show False by simp
  qed
  then obtain c where c: "c \<in> set xs" "c \<noteq> 0x23" by blast
  then have "dropWhile (\<lambda>c. c = 0x23) (xs @ rest) = dropWhile (\<lambda>c. c = 0x23) xs @ rest"
    by (intro dropWhile_append1) simp_all
  moreover from c have "dropWhile (\<lambda>c. c = 0x23) xs \<noteq> []" by auto
  ultimately obtain cs where "dropWhile (\<lambda>c. c = 0x23) xs = w # cs"
    using d by (cases "dropWhile (\<lambda>c. c = 0x23) xs") simp_all
  with D x w show ?thesis by (simp add: headingSplit_def)
qed

lemma heading_no_nl_inside:
  assumes "headingSplit s = Some (z @ 0x0A # w', r1)" "z \<noteq> []"
  shows "last z = 0x23"
proof (rule ccontr)
  assume l: "last z \<noteq> 0x23"
  from headingSplit_shape[OF assms(1)] obtain a w body
    where s: "z @ 0x0A # w' = replicate (Suc a) 0x23 @ w # body" "isWhiteSpace w"
      "\<forall>c \<in> set body. \<not> isLineTerminator c"
    by blast
  from s(2) have wh: "w \<noteq> 0x23" using not_isWhiteSpace_hash by auto
  have rhs: "dropWhile (\<lambda>c. c = 0x23) (replicate (Suc a) 0x23 @ w # body) = w # body"
    using wh by (intro dropWhile_all) simp_all
  have "\<not> (\<forall>c \<in> set z. c = 0x23)"
  proof
    assume "\<forall>c \<in> set z. c = 0x23"
    with assms(2) have "last z = 0x23" using last_in_set by blast
    with l show False by simp
  qed
  then obtain c where c: "c \<in> set z" "c \<noteq> 0x23" by blast
  then have lhs: "dropWhile (\<lambda>c. c = 0x23) (z @ 0x0A # w') = dropWhile (\<lambda>c. c = 0x23) z @ 0x0A # w'"
    by (intro dropWhile_append1) simp_all
  from c have "dropWhile (\<lambda>c. c = 0x23) z \<noteq> []" by auto
  then obtain d ds where dz: "dropWhile (\<lambda>c. c = 0x23) z = d # ds"
    by (cases "dropWhile (\<lambda>c. c = 0x23) z") simp_all
  from arg_cong[OF s(1), of "dropWhile (\<lambda>c. c = 0x23)"] have "ds @ 0x0A # w' = body"
    unfolding lhs rhs dz by simp
  then have "0x0A \<in> set body" by auto
  with s(3) newline_isLineTerminator show False by blast
qed


text \<open>
  One more line feed next to a line feed brings no blank section to an end, unless the
  line feed stands right behind hashes, where the pattern can read it as the whitespace
  of a heading.
\<close>

lemma last_dropWhile: "dropWhile P u \<noteq> [] \<Longrightarrow> last (dropWhile P u) = last u"
  by (induction u) (auto split: if_splits)

lemma run_insert:
  assumes "headingSplit (dropWhile (\<lambda>c. c = 0x0A) (u @ 0x0A # v)) \<noteq> None"
    and "u = [] \<or> last u \<noteq> 0x23"
  shows "headingSplit (dropWhile (\<lambda>c. c = 0x0A) (u @ 0x0A # 0x0A # v)) \<noteq> None"
proof (cases "\<forall>c \<in> set u. c = 0x0A")
  case True
  then have "\<And>X. dropWhile (\<lambda>c. c = 0x0A) (u @ X) = dropWhile (\<lambda>c. c = 0x0A) X"
    by (intro dropWhile_append2) simp
  with assms(1) show ?thesis by simp
next
  case False
  then obtain c where c: "c \<in> set u" "c \<noteq> 0x0A" by blast
  define D where "D = dropWhile (\<lambda>c. c = 0x0A) u"
  from c have app: "\<And>X. dropWhile (\<lambda>c. c = 0x0A) (u @ X) = D @ X"
    unfolding D_def by (intro dropWhile_append1) simp_all
  from c have ne: "D \<noteq> []" unfolding D_def by auto
  from c have "u \<noteq> []" by auto
  with assms(2) last_dropWhile[of "\<lambda>c. c = 0x0A" u] ne have "last D \<noteq> 0x23"
    unfolding D_def by simp
  from assms(1) have "headingSplit (D @ 0x0A # v) \<noteq> None" unfolding app .
  from headingSplit_prefix[OF this ne \<open>last D \<noteq> 0x23\<close>] have "headingSplit D \<noteq> None" .
  from headingSplit_mono[OF this, of "0x0A # 0x0A # v"] show ?thesis unfolding app .
qed

lemma sectionAt_same_heading:
  assumes h: "headingSplit s = Some (g, r1)"
    and run: "headingSplit (dropWhile (\<lambda>c. c = 0x0A) ys) \<noteq> None"
  shows "sectionAt (g @ 0x0A # 0x0A # ys)"
proof -
  have "headingSplit (g @ 0x0A # 0x0A # ys) = Some (g, 0x0A # 0x0A # ys)"
    by (rule headingSplit_rest[OF h]) (simp add: newline_isLineTerminator)
  with run show ?thesis unfolding sectionAt_iff by blast
qed

lemma sectionAt_insert:
  assumes sec: "sectionAt (z @ 0x0A # v)" and z: "z \<noteq> []" "last z \<noteq> 0x23"
  shows "sectionAt (z @ 0x0A # 0x0A # v)"
proof -
  from sec obtain g ys where h: "headingSplit (z @ 0x0A # v) = Some (g, 0x0A # 0x0A # ys)"
    and h2: "headingSplit (dropWhile (\<lambda>c. c = 0x0A) ys) \<noteq> None"
    unfolding sectionAt_iff by blast
  from headingSplit_append[OF h] have eq: "z @ 0x0A # v = g @ 0x0A # 0x0A # ys" .
  then obtain w where "(z = g @ w \<and> w @ 0x0A # v = 0x0A # 0x0A # ys)
      \<or> (z @ w = g \<and> 0x0A # v = w @ 0x0A # 0x0A # ys)"
    unfolding append_eq_append_conv2 by blast
  then show ?thesis
  proof
    assume a: "z = g @ w \<and> w @ 0x0A # v = 0x0A # 0x0A # ys"
    show ?thesis
    proof (cases w)
      case Nil
      with a have zg: "z = g" and v: "v = 0x0A # ys" by simp_all
      from h2 have "headingSplit (dropWhile (\<lambda>c. c = 0x0A) (0x0A # ys)) \<noteq> None" by simp
      from sectionAt_same_heading[OF h this] show ?thesis unfolding zg v .
    next
      case (Cons x w1)
      with a have x: "x = 0x0A" and w1: "w1 @ 0x0A # v = 0x0A # ys" by simp_all
      from a Cons x have zl: "z = g @ 0x0A # w1" by simp
      have lw: "w1 = [] \<or> last w1 \<noteq> 0x23"
        using z(2) unfolding zl by (cases "w1 = []") simp_all
      from h2 have "headingSplit (dropWhile (\<lambda>c. c = 0x0A) (w1 @ 0x0A # v)) \<noteq> None"
        unfolding w1 by simp
      from run_insert[OF this lw]
      have r2: "headingSplit (dropWhile (\<lambda>c. c = 0x0A) (w1 @ 0x0A # 0x0A # v)) \<noteq> None" .
      obtain ys' where ys': "w1 @ 0x0A # 0x0A # v = 0x0A # ys'"
      proof (cases w1)
        case Nil
        then show ?thesis using that by simp
      next
        case (Cons a w2)
        with w1 have "a = 0x0A" by simp
        with Cons show ?thesis using that by simp
      qed
      from r2 have "headingSplit (dropWhile (\<lambda>c. c = 0x0A) ys') \<noteq> None"
        unfolding ys' by simp
      from sectionAt_same_heading[OF h this] show ?thesis
        unfolding zl using ys' by simp
    qed
  next
    assume a: "z @ w = g \<and> 0x0A # v = w @ 0x0A # 0x0A # ys"
    show ?thesis
    proof (cases w)
      case Nil
      with a have zg: "z = g" and v: "v = 0x0A # ys" by simp_all
      from h2 have "headingSplit (dropWhile (\<lambda>c. c = 0x0A) (0x0A # ys)) \<noteq> None" by simp
      from sectionAt_same_heading[OF h this] show ?thesis unfolding zg v .
    next
      case (Cons x w')
      with a have "x = 0x0A" "g = z @ 0x0A # w'" by auto
      with h have "headingSplit (z @ 0x0A # v) = Some (z @ 0x0A # w', 0x0A # 0x0A # ys)" by simp
      from heading_no_nl_inside[OF this z(1)] z(2) show ?thesis by simp
    qed
  qed
qed

lemma sectionAt_not_nl: "\<not> sectionAt (0x0A # v)"
  by (simp add: sectionAt_def headingSplit_def)

lemma hasSection_insert:
  assumes "hasSection (u @ 0x0A # v)" "u = [] \<or> last u \<noteq> 0x23"
  shows "hasSection (u @ 0x0A # 0x0A # v)"
proof -
  from assms(1) obtain p s where t: "u @ 0x0A # v = p @ s" and s: "sectionAt s"
    unfolding hasSection_def by blast
  from t obtain z where "(u = p @ z \<and> z @ 0x0A # v = s) \<or> (u @ z = p \<and> 0x0A # v = z @ s)"
    unfolding append_eq_append_conv2 by blast
  then show ?thesis
  proof
    assume a: "u = p @ z \<and> z @ 0x0A # v = s"
    show ?thesis
    proof (cases "z = []")
      case True
      with a s sectionAt_not_nl show ?thesis by auto
    next
      case False
      with a assms(2) have "last z \<noteq> 0x23" by auto
      from a s have "sectionAt (z @ 0x0A # v)" by simp
      from sectionAt_insert[OF this False \<open>last z \<noteq> 0x23\<close>]
      have "sectionAt (z @ 0x0A # 0x0A # v)" .
      moreover from a have "u @ 0x0A # 0x0A # v = p @ (z @ 0x0A # 0x0A # v)" by simp
      ultimately show ?thesis unfolding hasSection_def by blast
    qed
  next
    assume a: "u @ z = p \<and> 0x0A # v = z @ s"
    show ?thesis
    proof (cases z)
      case Nil
      with a s sectionAt_not_nl show ?thesis by auto
    next
      case (Cons x z')
      with a have "v = z' @ s" by simp
      then have "u @ 0x0A # 0x0A # v = (u @ 0x0A # 0x0A # z') @ s" by simp
      with s show ?thesis unfolding hasSection_def by blast
    qed
  qed
qed

lemma replicate_shift: "replicate j x @ x # V = x # replicate j x @ V"
  by (induction j) simp_all

lemma hasSection_insert_run:
  assumes "hasSection (y @ 0x0A # V)" "y = [] \<or> last y \<noteq> 0x23"
  shows "hasSection (y @ replicate (Suc j) 0x0A @ V)"
proof (induction j)
  case 0
  from assms(1) show ?case by simp
next
  case (Suc j)
  have e1: "y @ replicate (Suc j) 0x0A @ V = (y @ replicate j 0x0A) @ 0x0A # V"
    by (simp add: replicate_shift)
  have e2: "(y @ replicate j 0x0A) @ 0x0A # 0x0A # V = y @ replicate (Suc (Suc j)) 0x0A @ V"
    by (simp add: replicate_shift)
  from Suc have "hasSection ((y @ replicate j 0x0A) @ 0x0A # V)" unfolding e1 .
  moreover have "y @ replicate j 0x0A = [] \<or> last (y @ replicate j 0x0A) \<noteq> 0x23"
    using assms(2) by (cases j) simp_all
  ultimately have "hasSection ((y @ replicate j 0x0A) @ 0x0A # 0x0A # V)"
    by (rule hasSection_insert)
  then show ?case unfolding e2 .
qed

lemma sectionAt_append:
  assumes "sectionAt s"
  shows "sectionAt (s @ v)"
proof -
  from assms obtain g ys where h: "headingSplit s = Some (g, 0x0A # 0x0A # ys)"
    and h2: "headingSplit (dropWhile (\<lambda>c. c = 0x0A) ys) \<noteq> None"
    unfolding sectionAt_iff by blast
  from headingSplit_append[OF h] have s: "s = g @ 0x0A # 0x0A # ys" .
  have ne: "dropWhile (\<lambda>c. c = 0x0A) ys \<noteq> []"
  proof
    assume "dropWhile (\<lambda>c. c = 0x0A) ys = []"
    then have "headingSplit (dropWhile (\<lambda>c. c = 0x0A) ys) = None"
      by (simp only: headingSplit_def list.case)
    with h2 show False by simp
  qed
  then have "\<not> (\<forall>c \<in> set ys. c = 0x0A)"
    unfolding dropWhile_eq_Nil_conv .
  then obtain c where "c \<in> set ys" "c \<noteq> 0x0A" by blast
  then have "dropWhile (\<lambda>c. c = 0x0A) (ys @ v) = dropWhile (\<lambda>c. c = 0x0A) ys @ v"
    by (intro dropWhile_append1) simp_all
  with headingSplit_mono[OF h2, of v]
  have "headingSplit (dropWhile (\<lambda>c. c = 0x0A) (ys @ v)) \<noteq> None" by simp
  from sectionAt_same_heading[OF h this] show ?thesis
    by (subst s) simp
qed

lemma hasSection_append: "hasSection t \<Longrightarrow> hasSection (t @ v)"
proof -
  assume "hasSection t"
  then obtain p s where t: "t = p @ s" and s: "sectionAt s"
    unfolding hasSection_def by blast
  from t have "t @ v = p @ (s @ v)" by simp
  with sectionAt_append[OF s, of v] show ?thesis unfolding hasSection_def by blast
qed

lemma hasSection_prepend: "hasSection t \<Longrightarrow> hasSection (u @ t)"
proof -
  assume "hasSection t"
  then obtain p s where t: "t = p @ s" and s: "sectionAt s"
    unfolding hasSection_def by blast
  from t have "u @ t = (u @ p) @ s" by simp
  with s show ?thesis unfolding hasSection_def by blast
qed

lemma blankSection_hasSection:
  assumes t: "t = pre @ g1 @ replicate (Suc (Suc k)) 0x0A @ g2 @ post"
    and g1: "isHeading g1" and g2: "isHeading g2"
  shows "hasSection t"
proof -
  from g1 have h1: "headingSplit g1 = Some (g1, [])" by (simp add: isHeading_def)
  from g2 have h2: "headingSplit g2 = Some (g2, [])" by (simp add: isHeading_def)
  from headingSplit_hd[OF h2] have "g2 @ post = [] \<or> \<not> (hd (g2 @ post) = 0x0A)" by simp
  then have "dropWhile (\<lambda>c. c = 0x0A) (replicate k 0x0A @ (g2 @ post)) = g2 @ post"
    by (intro dropWhile_all) simp_all
  moreover from h2 have "headingSplit (g2 @ post) \<noteq> None"
    by (intro headingSplit_mono) simp
  ultimately have "headingSplit (dropWhile (\<lambda>c. c = 0x0A) (replicate k 0x0A @ g2 @ post)) \<noteq> None"
    by simp
  from sectionAt_same_heading[OF h1 this]
  have "sectionAt (g1 @ replicate (Suc (Suc k)) 0x0A @ g2 @ post)" by simp
  with t show ?thesis unfolding hasSection_def by blast
qed

text \<open>
  With \<^verbatim>\<open>emptyLineInBlankSections\<close> off the loop leaves no blank section, and the three
  rewrites behind the loop bring none back.
\<close>

lemma callback_no_section:
  assumes "\<not> emptyLineInBlankSections opts"
  shows "\<not> hasSection (callback opts t)"
proof -
  define t3a where "t3a = replaceFirst (source beforeFirstHeading) False [Ref 1] [] (firstPasses opts t)"
  define t3b where "t3b = replaceFirst (source afterLastHeading) False [Ref 1] [] t3a"
  define t4 where "t4 = replaceFirst (source afterYaml) False [Ref 1, Lit NL, Ref 5] [] t3b"
  have cb: "callback opts t = (if \<not> emptyLineAfterYaml opts then t4 else t3b)"
    by (simp add: callback_split t3a_def t3b_def t4_def Let_def)
  from assms obtain s where "firstPasses opts t = removeBlankLinesBetweenHeadings s"
    by (simp add: firstPasses_def Let_def)
  with loop_exit[of s] hasSection_match have n0: "\<not> hasSection (firstPasses opts t)" by auto
  from beforeFirst_result[of "firstPasses opts t"] obtain j
    where "firstPasses opts t = replicate j 0x0A @ t3a"
    unfolding t3a_def by blast
  with n0 hasSection_prepend[of t3a "replicate j 0x0A"] have n1: "\<not> hasSection t3a" by auto
  from afterLast_result[of t3a] obtain j' where "t3a = t3b @ replicate j' 0x0A"
    unfolding t3b_def by blast
  with n1 hasSection_append[of t3b "replicate j' 0x0A"] have n2: "\<not> hasSection t3b" by auto
  have n3: "\<not> hasSection t4"
  proof -
    from afterYaml_result[of t3b] have "t4 = t3b \<or> (\<exists>y nls g r'. t3b = y @ nls @ g @ r' \<and> t4 = y @ 0x0A # g @ r'
           \<and> y \<noteq> [] \<and> hd y = 0x2D \<and> last y = 0x2D
           \<and> nls \<noteq> [] \<and> (\<forall>c \<in> set nls. c = 0x0A) \<and> headingSplit (g @ r') = Some (g, r'))"
      unfolding t4_def .
    then show ?thesis
    proof
      assume "t4 = t3b"
      with n2 show ?thesis by simp
    next
      assume "\<exists>y nls g r'. t3b = y @ nls @ g @ r' \<and> t4 = y @ 0x0A # g @ r'
           \<and> y \<noteq> [] \<and> hd y = 0x2D \<and> last y = 0x2D
           \<and> nls \<noteq> [] \<and> (\<forall>c \<in> set nls. c = 0x0A) \<and> headingSplit (g @ r') = Some (g, r')"
      then obtain y nls g r' where f: "t3b = y @ nls @ g @ r'" "t4 = y @ 0x0A # g @ r'"
        "last y = 0x2D" "nls \<noteq> []" "\<forall>c \<in> set nls. c = 0x0A"
        by blast
      from f(4) obtain j where "length nls = Suc j" by (cases nls) simp_all
      with all_nl_replicate[OF f(5)] have nls: "nls = replicate (Suc j) 0x0A" by simp
      show ?thesis
      proof
        assume "hasSection t4"
        with f(2) have "hasSection (y @ 0x0A # (g @ r'))" by simp
        moreover from f(3) have "y = [] \<or> last y \<noteq> 0x23" by simp
        ultimately have "hasSection (y @ replicate (Suc j) 0x0A @ (g @ r'))"
          by (rule hasSection_insert_run)
        with f(1) nls n2 show False by simp
      qed
    qed
  qed
  from cb n2 n3 show ?thesis by simp
qed

section \<open>A heading at the start or at the end of the text\<close>


text \<open>Line 42 and line 43, on a text with a heading at its start or at its end.\<close>

lemma beforeFirst_strips:
  assumes "isHeading g"
  shows "replace (replicate k 0x0A @ g @ rest) beforeFirstHeading [Ref 1] = g @ rest"
proof -
  define t where "t = replicate k 0x0A @ g @ rest"
  define out where "out = replaceFirst (source beforeFirstHeading) False [Ref 1] [] t"
  from assms have hs: "headingSplit g = Some (g, [])" by (simp add: isHeading_def)
  from headingSplit_hd[OF hs] have g: "g \<noteq> []" "hd g = 0x23" by simp_all
  from beforeFirst_result[of t] obtain j
    where nb: "\<not> blankThenHeading out" and tj: "t = replicate j 0x0A @ out"
    unfolding out_def by blast
  have "out = g @ rest"
  proof (cases "j \<le> k")
    case True
    define i where "i = k - j"
    from True have k: "k = j + i" by (simp add: i_def)
    from tj have "replicate j 0x0A @ replicate i 0x0A @ g @ rest = replicate j 0x0A @ out"
      unfolding t_def k by (simp add: replicate_add)
    then have o: "out = replicate i 0x0A @ g @ rest" by simp
    show ?thesis
    proof (cases i)
      case 0
      with o show ?thesis by simp
    next
      case (Suc i')
      from blankThenHeading_of[OF o[unfolded Suc] assms] nb show ?thesis by simp
    qed
  next
    case False
    define i where "i = j - Suc k"
    from False have j: "j = k + Suc i" by (simp add: i_def)
    from tj have "replicate k 0x0A @ g @ rest = replicate k 0x0A @ replicate (Suc i) 0x0A @ out"
      unfolding t_def j by (simp only: replicate_add append_assoc)
    then have "g @ rest = replicate (Suc i) 0x0A @ out" by simp
    with g have False by (cases g) simp_all
    then show ?thesis ..
  qed
  then show ?thesis
    unfolding out_def t_def by (simp add: replace_def)
qed

lemma afterLast_strips:
  assumes "isHeading g" "last g \<noteq> 0x0A"
  shows "replace (pre @ g @ replicate k 0x0A) afterLastHeading [Ref 1] = pre @ g"
proof -
  define t where "t = pre @ g @ replicate k 0x0A"
  define out where "out = replaceFirst (source afterLastHeading) False [Ref 1] [] t"
  from assms(1) have hs: "headingSplit g = Some (g, [])" by (simp add: isHeading_def)
  from headingSplit_hd[OF hs] have g: "g \<noteq> []" by simp
  from afterLast_result[of t] obtain j
    where tj: "t = out @ replicate j 0x0A"
      and nomatch: "\<forall>p s. out = p @ s \<longrightarrow> firstMatch (source afterLastHeading) False (rev p) s = None"
    unfolding out_def by blast
  have nb: "\<not> headingThenBlank out"
  proof
    assume "headingThenBlank out"
    then obtain p s where ps: "out = p @ s"
      "firstMatch (source afterLastHeading) False (rev p) s \<noteq> None"
      unfolding headingThenBlank_iff by (elim exE conjE)
    from nomatch[rule_format, OF ps(1)] ps(2) show False by simp
  qed
  have "out = pre @ g"
  proof (cases "j \<le> k")
    case True
    define i where "i = k - j"
    from True have k: "k = i + j" by (simp add: i_def)
    from tj have "(pre @ g @ replicate i 0x0A) @ replicate j 0x0A = out @ replicate j 0x0A"
      unfolding t_def k by (simp add: replicate_add)
    then have o: "out = pre @ g @ replicate i 0x0A" by simp
    show ?thesis
    proof (cases i)
      case 0
      with o show ?thesis by simp
    next
      case (Suc i')
      from o assms(1) have "headingThenBlank out"
        unfolding headingThenBlank_def Suc by blast
      with nb show ?thesis by simp
    qed
  next
    case False
    define i where "i = j - Suc k"
    from False have j: "j = Suc i + k" by (simp add: i_def)
    from tj have "(pre @ g) @ replicate k 0x0A = (out @ replicate (Suc i) 0x0A) @ replicate k 0x0A"
      unfolding t_def j by (simp only: replicate_add append_assoc)
    then have "pre @ g = out @ replicate (Suc i) 0x0A" by simp
    then have "last (pre @ g) = last (out @ replicate (Suc i) 0x0A)" by simp
    with g assms(2) have False by (simp add: replicate_append_same[symmetric] del: replicate_Suc)
    then show ?thesis ..
  qed
  then show ?thesis
    unfolding out_def t_def by (simp add: replace_def)
qed

section \<open>The text without its line feeds\<close>


text \<open>
  The text without its line feeds. The rewrites of the callback add and remove line feeds
  and nothing else, so they keep it.
\<close>

definition withoutLineFeeds :: "jsstring \<Rightarrow> jsstring" where
  "withoutLineFeeds t = filter (\<lambda>c. c \<noteq> 0x0A) t"

lemma withoutLineFeeds_append [simp]:
  "withoutLineFeeds (u @ v) = withoutLineFeeds u @ withoutLineFeeds v"
  by (simp add: withoutLineFeeds_def)

lemma withoutLineFeeds_Nil [simp]: "withoutLineFeeds [] = []"
  by (simp add: withoutLineFeeds_def)

lemma withoutLineFeeds_Cons:
  "withoutLineFeeds (x # xs) = (if x = 0x0A then withoutLineFeeds xs else x # withoutLineFeeds xs)"
  by (simp add: withoutLineFeeds_def)

lemma withoutLineFeeds_run [simp]:
  "\<forall>c \<in> set nls. c = 0x0A \<Longrightarrow> withoutLineFeeds nls = []"
  by (induction nls) (simp_all add: withoutLineFeeds_Cons)

lemma withoutLineFeeds_replicate [simp]: "withoutLineFeeds (replicate j 0x0A) = []"
  by (rule withoutLineFeeds_run) simp

lemma withoutLineFeeds_NL [simp]: "withoutLineFeeds NL = []"
  by (simp add: NL_def withoutLineFeeds_Cons)

lemma replaceAll_withoutLineFeeds:
  assumes step: "\<And>b r cs b' r'. firstMatch re ml b r = Some (cs, b', r') \<Longrightarrow>
      length r' < length r
      \<and> (\<exists>u. r = u @ r' \<and> withoutLineFeeds (expand t cs) = withoutLineFeeds u)"
  shows "withoutLineFeeds (replaceAll re ml t b r) = withoutLineFeeds r"
proof (induction "length r" arbitrary: b r rule: less_induct)
  case less
  show ?case
  proof (cases "firstMatch re ml b r")
    case None
    show ?thesis
    proof (cases r)
      case Nil
      with None show ?thesis by (subst replaceAll_unfold) simp
    next
      case (Cons x xs)
      have ih: "withoutLineFeeds (replaceAll re ml t (x # b) xs) = withoutLineFeeds xs"
        using less[of xs] Cons by simp
      from None Cons have "replaceAll re ml t b r = x # replaceAll re ml t (x # b) xs"
        by (subst replaceAll_unfold) simp
      then have "withoutLineFeeds (replaceAll re ml t b r)
          = withoutLineFeeds ([x] @ replaceAll re ml t (x # b) xs)"
        by simp
      also have "\<dots> = withoutLineFeeds [x] @ withoutLineFeeds xs"
        by (simp only: withoutLineFeeds_append ih)
      also have "\<dots> = withoutLineFeeds (x # xs)"
        by (simp only: withoutLineFeeds_append[symmetric] append_Cons append_Nil)
      finally show ?thesis unfolding Cons .
    qed
  next
    case (Some v)
    obtain cs b' r' where v: "v = (cs, b', r')" by (cases v)
    from step[OF Some[unfolded v]] obtain u
      where lt: "length r' < length r" and u: "r = u @ r'"
        and loc: "withoutLineFeeds (expand t cs) = withoutLineFeeds u"
      by blast
    have ih: "withoutLineFeeds (replaceAll re ml t b' r') = withoutLineFeeds r'"
      using less[OF lt] .
    have "replaceAll re ml t b r = expand t cs @ replaceAll re ml t b' r'"
      using Some v lt by (subst replaceAll_unfold) simp
    then have "withoutLineFeeds (replaceAll re ml t b r)
        = withoutLineFeeds u @ withoutLineFeeds r'"
      using loc ih by simp
    then show ?thesis unfolding u by simp
  qed
qed

lemma afterHeading_withoutLineFeeds:
  assumes "t = [Ref 1, Lit NL] \<or> t = [Ref 1, Lit NL, Lit NL]"
  shows "withoutLineFeeds (replaceAll (source afterHeading) True t b r) = withoutLineFeeds r"
proof (rule replaceAll_withoutLineFeeds)
  fix b r cs b' r'
  assume fm: "firstMatch (source afterHeading) True b r = Some (cs, b', r')"
  from fm obtain g r1 where h: "headingSplit r = Some (g, r1)"
    unfolding firstMatch_afterHeading by (cases "headingSplit r") (auto split: if_splits)
  from fm h obtain x xs where r1: "r1 = x # xs" "x = 0x0A"
    unfolding firstMatch_afterHeading by (cases r1) (auto split: if_splits)
  let ?tw = "takeWhile (\<lambda>c. c = 0x0A) r1"
  from fm h r1 have cs: "cs = [1 \<mapsto> g]" and r': "r' = dropWhile (\<lambda>c. c = 0x0A) r1"
    unfolding firstMatch_afterHeading by (auto split: if_splits)
  have "r1 = ?tw @ r'" unfolding r' by simp
  with headingSplit_append[OF h] have r: "r = (g @ ?tw) @ r'" by simp
  from r1 have tw: "?tw \<noteq> []" "\<forall>c \<in> set ?tw. c = 0x0A" by (auto dest: set_takeWhileD)
  from assms have e: "expand t cs = g @ NL \<or> expand t cs = g @ NL @ NL"
    by (auto simp: cs)
  have loc: "withoutLineFeeds (expand t cs) = withoutLineFeeds (g @ ?tw)"
    using e tw(2) by auto
  from r tw(1) have "length r' < length r" by simp
  with r loc show "length r' < length r
      \<and> (\<exists>u. r = u @ r' \<and> withoutLineFeeds (expand t cs) = withoutLineFeeds u)"
    by blast
qed

lemma beforeHeading_withoutLineFeeds:
  "withoutLineFeeds (replaceAll (source beforeHeading) False [Lit NL, Lit NL, Ref 1] b r)
     = withoutLineFeeds r"
proof (rule replaceAll_withoutLineFeeds)
  fix b r cs b' r'
  assume fm: "firstMatch (source beforeHeading) False b r = Some (cs, b', r')"
  from fm obtain x xs where r0: "r = x # xs" "x = 0x0A"
    unfolding firstMatch_beforeHeading by (cases r) (auto split: if_splits)
  let ?tw = "takeWhile (\<lambda>c. c = 0x0A) r"
  let ?dw = "dropWhile (\<lambda>c. c = 0x0A) r"
  from fm r0 obtain g where h: "headingSplit ?dw = Some (g, r')" and cs: "cs = [1 \<mapsto> g]"
    unfolding firstMatch_beforeHeading by (cases "headingSplit ?dw") (auto split: if_splits)
  have "r = ?tw @ ?dw" by simp
  with headingSplit_append[OF h] have r: "r = (?tw @ g) @ r'" by simp
  from r0 have tw: "?tw \<noteq> []" "\<forall>c \<in> set ?tw. c = 0x0A" by (auto dest: set_takeWhileD)
  have "expand [Lit NL, Lit NL, Ref 1] cs = NL @ NL @ g" by (simp add: cs)
  with tw(2) have loc: "withoutLineFeeds (expand [Lit NL, Lit NL, Ref 1] cs) = withoutLineFeeds (?tw @ g)"
    by simp
  from arg_cong[OF r, of length] tw(1) have "length r' < length r" by simp
  moreover from r loc
  have "\<exists>u. r = u @ r' \<and> withoutLineFeeds (expand [Lit NL, Lit NL, Ref 1] cs) = withoutLineFeeds u"
    by (intro exI[of _ "?tw @ g"] conjI)
  ultimately show "length r' < length r
      \<and> (\<exists>u. r = u @ r' \<and> withoutLineFeeds (expand [Lit NL, Lit NL, Ref 1] cs) = withoutLineFeeds u)"
    by (rule conjI)
qed

lemma headingLine_withoutLineFeeds:
  "withoutLineFeeds (replaceAll (source headingLine) True [Lit NL, Lit NL, Ref 1, Lit NL, Lit NL] b r)
     = withoutLineFeeds r"
proof (rule replaceAll_withoutLineFeeds)
  fix b r cs b' r'
  assume fm: "firstMatch (source headingLine) True b r = Some (cs, b', r')"
  then obtain g where h: "headingSplit r = Some (g, r')" and cs: "cs = [1 \<mapsto> g]"
    unfolding firstMatch_headingLine by (cases "headingSplit r") (auto split: if_splits)
  from headingSplit_append[OF h] have r: "r = g @ r'" .
  from headingSplit_hd[OF h] r have "length r' < length r" by simp
  moreover have "withoutLineFeeds (expand [Lit NL, Lit NL, Ref 1, Lit NL, Lit NL] cs) = withoutLineFeeds g"
    by (simp add: cs)
  ultimately show "length r' < length r
      \<and> (\<exists>u. r = u @ r'
          \<and> withoutLineFeeds (expand [Lit NL, Lit NL, Ref 1, Lit NL, Lit NL] cs) = withoutLineFeeds u)"
    using r by blast
qed

lemma betweenHeadings_withoutLineFeeds:
  "withoutLineFeeds (replaceAll (source betweenHeadings) True [Ref 1, Lit NL, Ref 2] b r)
     = withoutLineFeeds r"
proof (rule replaceAll_withoutLineFeeds)
  fix b r cs b' r'
  assume fm: "firstMatch (source betweenHeadings) True b r = Some (cs, b', r')"
  from fm_between_Some[OF fm] obtain g1 nls g2
    where h: "headingSplit r = Some (g1, 0x0A # nls @ g2 @ r')"
      and nls: "nls \<noteq> []" "\<forall>c \<in> set nls. c = 0x0A"
      and cs: "cs 1 = Some g1" "cs 2 = Some g2"
    by blast
  from headingSplit_append[OF h] have r: "r = (g1 @ 0x0A # nls @ g2) @ r'" by simp
  have "expand [Ref 1, Lit NL, Ref 2] cs = g1 @ NL @ g2"
    using cs by simp
  with nls(2) have loc: "withoutLineFeeds (expand [Ref 1, Lit NL, Ref 2] cs)
      = withoutLineFeeds (g1 @ 0x0A # nls @ g2)"
    by (simp add: withoutLineFeeds_Cons)
  from r have "length r' < length r" by simp
  with r loc show "length r' < length r
      \<and> (\<exists>u. r = u @ r' \<and> withoutLineFeeds (expand [Ref 1, Lit NL, Ref 2] cs) = withoutLineFeeds u)"
    by blast
qed

lemma removeBlankLinesBetweenHeadings_withoutLineFeeds:
  "withoutLineFeeds (removeBlankLinesBetweenHeadings t) = withoutLineFeeds t"
proof (induction t rule: removeBlankLinesBetweenHeadings.induct)
  case (1 s)
  show ?case
  proof (cases "match s betweenHeadings")
    case True
    have "withoutLineFeeds (replace s betweenHeadings [Ref 1, Lit NL, Ref 2]) = withoutLineFeeds s"
      by (simp only: replace_def flags if_True betweenHeadings_withoutLineFeeds)
    with 1[OF True] True show ?thesis
      by (subst removeBlankLinesBetweenHeadings.simps) (simp only: if_True)
  next
    case False
    then show ?thesis by (subst removeBlankLinesBetweenHeadings.simps) simp
  qed
qed

lemma firstPasses_withoutLineFeeds:
  "withoutLineFeeds (firstPasses opts t) = withoutLineFeeds t"
proof -
  have a1: "\<And>s. withoutLineFeeds (replace s afterHeading [Ref 1, Lit NL]) = withoutLineFeeds s"
    by (simp only: replace_def flags if_True) (rule afterHeading_withoutLineFeeds, simp)
  have a2: "\<And>s. withoutLineFeeds (replace s afterHeading [Ref 1, Lit NL, Lit NL]) = withoutLineFeeds s"
    by (simp only: replace_def flags if_True) (rule afterHeading_withoutLineFeeds, simp)
  have b: "\<And>s. withoutLineFeeds (replace s beforeHeading [Lit NL, Lit NL, Ref 1]) = withoutLineFeeds s"
    by (simp only: replace_def flags if_True beforeHeading_withoutLineFeeds)
  have h: "\<And>s. withoutLineFeeds (replace s headingLine [Lit NL, Lit NL, Ref 1, Lit NL, Lit NL])
      = withoutLineFeeds s"
    by (simp only: replace_def flags if_True headingLine_withoutLineFeeds)
  show ?thesis
    unfolding firstPasses_def Let_def
    by (simp only: removeBlankLinesBetweenHeadings_withoutLineFeeds a1 a2 b h
        if_distrib[of withoutLineFeeds] if_cancel)
qed

text \<open>The callback changes nothing but line feeds.\<close>

lemma callback_withoutLineFeeds:
  "withoutLineFeeds (callback opts t) = withoutLineFeeds t"
proof -
  define t3a where "t3a = replaceFirst (source beforeFirstHeading) False [Ref 1] [] (firstPasses opts t)"
  define t3b where "t3b = replaceFirst (source afterLastHeading) False [Ref 1] [] t3a"
  define t4 where "t4 = replaceFirst (source afterYaml) False [Ref 1, Lit NL, Ref 5] [] t3b"
  have cb: "callback opts t = (if \<not> emptyLineAfterYaml opts then t4 else t3b)"
    by (simp add: callback_split t3a_def t3b_def t4_def Let_def)
  from beforeFirst_result[of "firstPasses opts t"] obtain j
    where "firstPasses opts t = replicate j 0x0A @ t3a"
    unfolding t3a_def by blast
  from arg_cong[OF this, of withoutLineFeeds]
  have l1: "withoutLineFeeds t3a = withoutLineFeeds t"
    by (simp add: firstPasses_withoutLineFeeds)
  from afterLast_result[of t3a] obtain j' where "t3a = t3b @ replicate j' 0x0A"
    unfolding t3b_def by blast
  from arg_cong[OF this, of withoutLineFeeds]
  have l2: "withoutLineFeeds t3b = withoutLineFeeds t3a" by simp
  have l3: "withoutLineFeeds t4 = withoutLineFeeds t3b"
  proof -
    from afterYaml_result[of t3b] have "t4 = t3b \<or> (\<exists>y nls g r'. t3b = y @ nls @ g @ r' \<and> t4 = y @ 0x0A # g @ r'
           \<and> y \<noteq> [] \<and> hd y = 0x2D \<and> last y = 0x2D
           \<and> nls \<noteq> [] \<and> (\<forall>c \<in> set nls. c = 0x0A) \<and> headingSplit (g @ r') = Some (g, r'))"
      unfolding t4_def .
    then show ?thesis
    proof
      assume "t4 = t3b"
      then show ?thesis by simp
    next
      assume "\<exists>y nls g r'. t3b = y @ nls @ g @ r' \<and> t4 = y @ 0x0A # g @ r'
           \<and> y \<noteq> [] \<and> hd y = 0x2D \<and> last y = 0x2D
           \<and> nls \<noteq> [] \<and> (\<forall>c \<in> set nls. c = 0x0A) \<and> headingSplit (g @ r') = Some (g, r')"
      then obtain y nls g r' where f: "t3b = y @ nls @ g @ r'" "t4 = y @ 0x0A # g @ r'"
        "\<forall>c \<in> set nls. c = 0x0A"
        by blast
      then show ?thesis by (simp add: withoutLineFeeds_Cons)
    qed
  qed
  from cb l1 l2 l3 show ?thesis by simp
qed

section \<open>Lines and gaps\<close>


text \<open>
  A text read as its lines and the gaps between them. A gap is a run of line terminators;
  a line is a run of other characters, not empty. The text is a gap and a line, as many
  times as it has lines, and a last gap; only the first and the last gap may be empty.
  The rewrites of the callback change gaps and leave the lines alone.
\<close>

definition isGap :: "jsstring \<Rightarrow> bool" where
  "isGap g = (\<forall>c \<in> set g. isLineTerminator c)"

definition isLine :: "jsstring \<Rightarrow> bool" where
  "isLine l = (l \<noteq> [] \<and> (\<forall>c \<in> set l. \<not> isLineTerminator c))"



fun wellFormed :: "bool \<Rightarrow> (jsstring \<times> jsstring) list \<Rightarrow> jsstring \<Rightarrow> bool" where
  "wellFormed first [] e = isGap e"
| "wellFormed first ((g, l) # bs) e =
     ((first \<or> g \<noteq> []) \<and> isGap g \<and> isLine l \<and> wellFormed False bs e)"

lemma isGap_simps [simp]:
  "isGap []" "isGap (c # g) = (isLineTerminator c \<and> isGap g)"
  "isGap (g @ h) = (isGap g \<and> isGap h)"
  by (auto simp: isGap_def)

lemma wellFormed_weaken: "wellFormed first bs e \<Longrightarrow> wellFormed True bs e"
  by (cases bs) auto











section \<open>Rewriting the gaps\<close>











fun stripnl :: "jsstring \<Rightarrow> jsstring" where
  "stripnl [] = []"
| "stripnl (c # g) = (if c = 0x0A \<and> (\<forall>x \<in> set g. x = 0x0A) then [] else c # stripnl g)"









lemma stripnl_all: "\<forall>x \<in> set g. x = 0x0A \<Longrightarrow> stripnl g = []"
  by (cases g) auto









lemma dropWhile_last: "dropWhile P s \<noteq> [] \<Longrightarrow> last (dropWhile P s) = last s"
  by (rule last_dropWhile)



section \<open>Line 33 and line 35, gap by gap\<close>






















section \<open>Line 34, and the three passes together\<close>















section \<open>Where a heading stands\<close>




lemma wellFormed_suffix: "wellFormed first (bs1 @ bs2) e \<Longrightarrow> bs1 \<noteq> [] \<Longrightarrow> wellFormed False bs2 e"
proof (induction bs1 arbitrary: first)
  case Nil
  then show ?case by simp
next
  case (Cons p bs1)
  obtain g l where p: "p = (g, l)" by (cases p)
  show ?case
  proof (cases "bs1 = []")
    case True
    with Cons.prems p show ?thesis by simp
  next
    case False
    with Cons.prems p Cons.IH[of False] show ?thesis by simp
  qed
qed





section \<open>One empty line around a heading\<close>




section \<open>The claims\<close>

text \<open>
  C1. Every example of the rule is reproduced: \<open>apply\<close> on the example's \<open>before\<close>
  text, with the default options merged with the example's options, returns the
  example's \<open>after\<close> text, code unit for code unit. The masking engine is assumed to
  mask nothing but a leading frontmatter block, which it hands to the callback either
  as it is or as an empty frontmatter block, and which it puts back afterwards.
\<close>

theorem examples_reproduced:
  assumes placeholder: "p = frontmatter \<or> p = emptyFrontmatter"
    and engine: "\<forall>e \<in> set exampleBuilders. \<forall>f.
      ign [code, yaml, link, wikiLink, tag] (before e) f
        = swapPrefix p frontmatter (f (swapPrefix frontmatter p (before e)))"
  shows "\<forall>e \<in> set exampleBuilders. apply_rule ign (before e) (mergedOptions e) = after e"
proof
  fix e
  assume e: "e \<in> set exampleBuilders"
  from placeholder have "list_all (reproduced p) exampleBuilders"
    using reproduced_unmasked reproduced_masked by blast
  with e have "reproduced p e"
    by (simp add: list_all_iff)
  with engine e show "apply_rule ign (before e) (mergedOptions e) = after e"
    by (simp add: apply_rule_def reproduced_def)
qed

theorem examples_reproduced_witness:
  "(frontmatter = frontmatter \<or> frontmatter = emptyFrontmatter)
   \<and> list_all (\<lambda>e. \<forall>f.
        ignoreNothing [code, yaml, link, wikiLink, tag] (before e) f
          = swapPrefix frontmatter frontmatter (f (swapPrefix frontmatter frontmatter (before e))))
       exampleBuilders
   \<and> list_all (\<lambda>e. apply_rule ignoreNothing (before e) (mergedOptions e) = after e)
       exampleBuilders"
  using examples_reproduced[of frontmatter ignoreNothing]
  by (simp add: swapPrefix_same ignoreNothing_def list_all_iff)

text \<open>
  C2, at the input where it fails. With \<open>bottom = false\<close> the text
  \<^verbatim>\<open>"\n#\n# a"\<close> (no protected region) comes back as \<^verbatim>\<open>"#\n# a"\<close>, and a second
  application turns that into \<^verbatim>\<open>"#\n\n# a"\<close>: the \<^verbatim>\<open>\s\<close> of the heading pattern takes the
  line break behind the bare \<^verbatim>\<open>#\<close>, so the first application reads both lines as one
  heading and leaves them together; the second one, with no line break in front of
  the \<^verbatim>\<open>#\<close> any more, finds the heading \<^verbatim>\<open># a\<close> and puts the blank line before it.
\<close>

theorem second_application_differs:
  "apply_rule ignoreNothing (str ''\<newline>#\<newline># a'')
     \<lparr>bottom = False, emptyLineAfterYaml = True, emptyLineInBlankSections = True\<rparr>
     = str ''#\<newline># a''
   \<and> apply_rule ignoreNothing (str ''#\<newline># a'')
     \<lparr>bottom = False, emptyLineAfterYaml = True, emptyLineInBlankSections = True\<rparr>
     = str ''#\<newline>\<newline># a''"
  by code_simp

text \<open>
  C6. With \<open>bottom = true\<close>, \<open>emptyLineAfterYaml = false\<close> and
  \<open>emptyLineInBlankSections = true\<close> the document
  \<^verbatim>\<open>"---\nkey: value\n---\n# Header\nParagraph here..."\<close> becomes
  \<^verbatim>\<open>"---\nkey: value\n---\n# Header\n\nParagraph here..."\<close>. The masking engine is assumed
  to hand the callback the document with the frontmatter as it is or with an empty
  frontmatter block in its place, and to put the frontmatter back in that place.
\<close>

lemma frontmatter_document:
  "str ''---\<newline>key: value\<newline>---\<newline># Header\<newline>Paragraph here...''
     = frontmatter @ str ''\<newline># Header\<newline>Paragraph here...''"
  by code_simp

lemma frontmatter_result:
  "str ''---\<newline>key: value\<newline>---\<newline># Header\<newline>\<newline>Paragraph here...''
     = frontmatter @ str ''\<newline># Header\<newline>\<newline>Paragraph here...''"
  by code_simp

lemma callback_frontmatter:
  "callback \<lparr>bottom = True, emptyLineAfterYaml = False, emptyLineInBlankSections = True\<rparr>
     (frontmatter @ str ''\<newline># Header\<newline>Paragraph here...'')
     = frontmatter @ str ''\<newline># Header\<newline>\<newline>Paragraph here...''"
  by code_simp

lemma callback_emptyFrontmatter:
  "callback \<lparr>bottom = True, emptyLineAfterYaml = False, emptyLineInBlankSections = True\<rparr>
     (emptyFrontmatter @ str ''\<newline># Header\<newline>Paragraph here...'')
     = emptyFrontmatter @ str ''\<newline># Header\<newline>\<newline>Paragraph here...''"
  by code_simp

theorem heading_after_frontmatter:
  assumes placeholder: "p = frontmatter \<or> p = emptyFrontmatter"
    and engine: "\<forall>f. ign [code, yaml, link, wikiLink, tag]
        (str ''---\<newline>key: value\<newline>---\<newline># Header\<newline>Paragraph here...'') f
          = restore (f (p @ str ''\<newline># Header\<newline>Paragraph here...''))"
    and restore: "\<forall>x. restore (p @ x) = frontmatter @ x"
  shows "apply_rule ign (str ''---\<newline>key: value\<newline>---\<newline># Header\<newline>Paragraph here...'')
           \<lparr>bottom = True, emptyLineAfterYaml = False, emptyLineInBlankSections = True\<rparr>
         = str ''---\<newline>key: value\<newline>---\<newline># Header\<newline>\<newline>Paragraph here...''"
proof -
  from placeholder
  have "callback \<lparr>bottom = True, emptyLineAfterYaml = False, emptyLineInBlankSections = True\<rparr>
          (p @ str ''\<newline># Header\<newline>Paragraph here...'')
        = p @ str ''\<newline># Header\<newline>\<newline>Paragraph here...''"
    using callback_frontmatter callback_emptyFrontmatter by blast
  with engine restore show ?thesis
    by (simp add: apply_rule_def frontmatter_result)
qed

theorem heading_after_frontmatter_witness:
  "(emptyFrontmatter = frontmatter \<or> emptyFrontmatter = emptyFrontmatter)
   \<and> (\<forall>f. (\<lambda>types text g. swapPrefix emptyFrontmatter frontmatter
                (g (swapPrefix frontmatter emptyFrontmatter text)))
          [code, yaml, link, wikiLink, tag]
          (str ''---\<newline>key: value\<newline>---\<newline># Header\<newline>Paragraph here...'') f
        = swapPrefix emptyFrontmatter frontmatter
            (f (emptyFrontmatter @ str ''\<newline># Header\<newline>Paragraph here...'')))
   \<and> (\<forall>x. swapPrefix emptyFrontmatter frontmatter (emptyFrontmatter @ x) = frontmatter @ x)
   \<and> apply_rule (\<lambda>types text g. swapPrefix emptyFrontmatter frontmatter
                (g (swapPrefix frontmatter emptyFrontmatter text)))
         (str ''---\<newline>key: value\<newline>---\<newline># Header\<newline>Paragraph here...'')
         \<lparr>bottom = True, emptyLineAfterYaml = False, emptyLineInBlankSections = True\<rparr>
       = str ''---\<newline>key: value\<newline>---\<newline># Header\<newline>\<newline>Paragraph here...''"
proof -
  have swap: "\<forall>x. swapPrefix emptyFrontmatter frontmatter (emptyFrontmatter @ x) = frontmatter @ x"
    by (simp add: swapPrefix_def)
  have mask: "swapPrefix frontmatter emptyFrontmatter
      (str ''---\<newline>key: value\<newline>---\<newline># Header\<newline>Paragraph here...'')
      = emptyFrontmatter @ str ''\<newline># Header\<newline>Paragraph here...''"
    by (simp add: frontmatter_document swapPrefix_def)
  from heading_after_frontmatter[of emptyFrontmatter
      "\<lambda>types text g. swapPrefix emptyFrontmatter frontmatter
          (g (swapPrefix frontmatter emptyFrontmatter text))"
      "swapPrefix emptyFrontmatter frontmatter"] swap mask
  show ?thesis by simp
qed

text \<open>
  C9. The loop of lines 38 to 40 ends on every text: it runs at most as many rounds as
  the text has code units, and it leaves with the text of the last round, in which
  the pattern matches nowhere. Every other step of \<open>apply\<close> is one call of \<open>replace\<close>,
  which goes through the text once; nothing in the rule raises.
\<close>

theorem loop_terminates:
  "\<exists>n. n \<le> length doc
     \<and> removeBlankLinesBetweenHeadings doc
         = ((\<lambda>t. replace t betweenHeadings [Ref 1, Lit NL, Ref 2]) ^^ n) doc
     \<and> \<not> match (removeBlankLinesBetweenHeadings doc) betweenHeadings"
proof (induction doc rule: removeBlankLinesBetweenHeadings.induct)
  case (1 doc)
  let ?step = "\<lambda>t. replace t betweenHeadings [Ref 1, Lit NL, Ref 2]"
  show ?case
  proof (cases "match doc betweenHeadings")
    case False
    then have "removeBlankLinesBetweenHeadings doc = doc"
      by (simp add: removeBlankLinesBetweenHeadings.simps[of doc])
    with False show ?thesis
      by (intro exI[of _ 0]) simp
  next
    case True
    then have unfold: "removeBlankLinesBetweenHeadings doc
        = removeBlankLinesBetweenHeadings (?step doc)"
      by (simp add: removeBlankLinesBetweenHeadings.simps[of doc])
    from True have "test (source betweenHeadings) True [] doc"
      by (simp add: match_def betweenHeadings_def)
    from replaceAll_length_less[OF betweenHeadings_shrinks this]
    have shorter: "length (?step doc) < length doc"
      by (simp add: replace_def betweenHeadings_def)
    from "1.IH"[OF True] obtain n where n: "n \<le> length (?step doc)"
      "removeBlankLinesBetweenHeadings (?step doc) = (?step ^^ n) (?step doc)"
      "\<not> match (removeBlankLinesBetweenHeadings (?step doc)) betweenHeadings"
      by blast
    from n(1) shorter have "Suc n \<le> length doc" by simp
    moreover from n(2) unfold have "removeBlankLinesBetweenHeadings doc = (?step ^^ Suc n) doc"
      by (simp del: funpow.simps add: funpow_Suc_right)
    moreover from n(3) unfold have "\<not> match (removeBlankLinesBetweenHeadings doc) betweenHeadings"
      by simp
    ultimately show ?thesis by blast
  qed
qed

text \<open>
  C10, at the input where it fails. With \<open>bottom = false\<close>,
  \<open>emptyLineAfterYaml = true\<close> and \<open>emptyLineInBlankSections = true\<close> the heading
  \<^verbatim>\<open># Title\<close> of \<^verbatim>\<open>"intro\n#\n# Title\nbody"\<close> stands right under the line \<^verbatim>\<open>#\<close>, which is
  not blank, and it still stands right under it in the result: the \<^verbatim>\<open>\s\<close> of the heading
  pattern takes the line break behind the bare \<^verbatim>\<open>#\<close>, the match runs on over
  \<^verbatim>\<open># Title\<close>, and the search for the next heading starts behind it.
\<close>

theorem no_blank_line_under_bare_hash:
  "apply_rule ignoreNothing (str ''intro\<newline>#\<newline># Title\<newline>body'')
     \<lparr>bottom = False, emptyLineAfterYaml = True, emptyLineInBlankSections = True\<rparr>
     = str ''intro\<newline>\<newline>#\<newline># Title\<newline>body''"
  by code_simp

text \<open>
  C8, at an input where it fails. A blank line may hold whitespace. Under the default
  options \<^verbatim>\<open>" \n# a\n \n"\<close> has a blank line, a single space, before its only heading
  and one behind it; both are still there in the result, an empty line next to each:
  \<^verbatim>\<open>\n+\<close> in the patterns of line 42 and line 43 reads line feeds only, and a space
  between two line feeds ends the run.
\<close>

theorem whitespace_lines_at_the_edges_stay:
  "apply_rule ignoreNothing (str '' \<newline># a\<newline> \<newline>'') defaultOptions
     = str '' \<newline>\<newline># a\<newline>\<newline> \<newline>''"
  by code_simp

text \<open>
  C8, for empty lines. Whatever the options, the rewrites change line feeds and nothing
  else: the result is the masked text with line feeds added and removed, its lines are
  the lines of the masked text, and it never starts with line feeds followed by a heading
  and never ends with a heading followed by line feeds. Line 42 takes every line feed off
  a text that starts with line feeds and a heading, and gives back the heading and what
  follows it. Line 43 takes every line feed off a text that ends with a heading and line
  feeds, and leaves a text alone that does not end with a line feed. A heading is what
  the pattern \<^verbatim>\<open>#+\s.*\<close> reads as one: hashes, a whitespace and the rest of the line. The
  masking engine may be any that hands some masked text to the callback and restores what
  the callback returns.
\<close>

theorem blank_lines_at_the_edges_stripped:
  assumes engine: "\<forall>f. ign [code, yaml, link, wikiLink, tag] text f = restore (f masked)"
  shows "apply_rule ign text options = restore (callback options masked)
    \<and> withoutLineFeeds (callback options masked) = withoutLineFeeds masked
    \<and> textLines (callback options masked) = textLines masked
    \<and> \<not> (\<exists>k g rest. callback options masked = replicate (Suc k) 0x0A @ g @ rest \<and> isHeading g)
    \<and> \<not> (\<exists>pre g k. callback options masked = pre @ g @ replicate (Suc k) 0x0A \<and> isHeading g)
    \<and> (\<forall>k g rest. isHeading g
          \<longrightarrow> replace (replicate k 0x0A @ g @ rest) beforeFirstHeading [Ref 1] = g @ rest)
    \<and> (\<forall>pre g k. isHeading g \<and> last g \<noteq> 0x0A
          \<longrightarrow> replace (pre @ g @ replicate k 0x0A) afterLastHeading [Ref 1] = pre @ g)
    \<and> (\<forall>t. t = [] \<or> last t \<noteq> 0x0A \<longrightarrow> replace t afterLastHeading [Ref 1] = t)"
proof (intro conjI)
  from engine show "apply_rule ign text options = restore (callback options masked)"
    by (simp add: apply_rule_def)
next
  show "withoutLineFeeds (callback options masked) = withoutLineFeeds masked"
    by (rule callback_withoutLineFeeds)
next
  show "textLines (callback options masked) = textLines masked"
    by (rule callback_lines)
next
  from callback_edges[of options masked] have "\<not> blankThenHeading (callback options masked)"
    by simp
  then show "\<not> (\<exists>k g rest. callback options masked = replicate (Suc k) 0x0A @ g @ rest \<and> isHeading g)"
    using blankThenHeading_of by blast
next
  from callback_edges[of options masked] have "\<not> headingThenBlank (callback options masked)"
    by simp
  then show "\<not> (\<exists>pre g k. callback options masked = pre @ g @ replicate (Suc k) 0x0A \<and> isHeading g)"
    by (simp add: headingThenBlank_def)
next
  show "\<forall>k g rest. isHeading g
          \<longrightarrow> replace (replicate k 0x0A @ g @ rest) beforeFirstHeading [Ref 1] = g @ rest"
    using beforeFirst_strips by blast
next
  show "\<forall>pre g k. isHeading g \<and> last g \<noteq> 0x0A
          \<longrightarrow> replace (pre @ g @ replicate k 0x0A) afterLastHeading [Ref 1] = pre @ g"
    using afterLast_strips by blast
next
  show "\<forall>t. t = [] \<or> last t \<noteq> 0x0A \<longrightarrow> replace t afterLastHeading [Ref 1] = t"
    using afterLast_no_newline by blast
qed

theorem blank_lines_at_the_edges_stripped_witness:
  "(\<forall>f. ignoreNothing [code, yaml, link, wikiLink, tag] (str ''\<newline>\<newline># a\<newline>\<newline>'') f
        = (\<lambda>x. x) (f (str ''\<newline>\<newline># a\<newline>\<newline>'')))
   \<and> apply_rule ignoreNothing (str ''\<newline>\<newline># a\<newline>\<newline>'') defaultOptions
        = callback defaultOptions (str ''\<newline>\<newline># a\<newline>\<newline>'')
   \<and> withoutLineFeeds (callback defaultOptions (str ''\<newline>\<newline># a\<newline>\<newline>''))
        = withoutLineFeeds (str ''\<newline>\<newline># a\<newline>\<newline>'')
   \<and> textLines (callback defaultOptions (str ''\<newline>\<newline># a\<newline>\<newline>''))
        = textLines (str ''\<newline>\<newline># a\<newline>\<newline>'')
   \<and> \<not> (\<exists>k g rest. callback defaultOptions (str ''\<newline>\<newline># a\<newline>\<newline>'')
          = replicate (Suc k) 0x0A @ g @ rest \<and> isHeading g)
   \<and> \<not> (\<exists>pre g k. callback defaultOptions (str ''\<newline>\<newline># a\<newline>\<newline>'')
          = pre @ g @ replicate (Suc k) 0x0A \<and> isHeading g)
   \<and> isHeading (str ''# a'')
   \<and> last (str ''# a'') \<noteq> 0x0A
   \<and> replace (replicate 2 0x0A @ str ''# a'' @ str ''\<newline>x'') beforeFirstHeading [Ref 1]
        = str ''# a'' @ str ''\<newline>x''
   \<and> replace (str ''x\<newline>'' @ str ''# a'' @ replicate 2 0x0A) afterLastHeading [Ref 1]
        = str ''x\<newline>'' @ str ''# a''
   \<and> replace (str ''# a'') afterLastHeading [Ref 1] = str ''# a''"
proof -
  have e: "\<forall>f. ignoreNothing [code, yaml, link, wikiLink, tag] (str ''\<newline>\<newline># a\<newline>\<newline>'') f
        = (\<lambda>x. x) (f (str ''\<newline>\<newline># a\<newline>\<newline>''))"
    by (simp add: ignoreNothing_def)
  have h: "isHeading (str ''# a'')" by code_simp
  have l: "last (str ''# a'') \<noteq> 0x0A" by code_simp
  note T = blank_lines_at_the_edges_stripped[of ignoreNothing "str ''\<newline>\<newline># a\<newline>\<newline>''"
      "\<lambda>x. x" "str ''\<newline>\<newline># a\<newline>\<newline>''" defaultOptions, OF e]
  from T have c1: "apply_rule ignoreNothing (str ''\<newline>\<newline># a\<newline>\<newline>'') defaultOptions
        = callback defaultOptions (str ''\<newline>\<newline># a\<newline>\<newline>'')"
    by (elim conjE)
  from T have c2: "withoutLineFeeds (callback defaultOptions (str ''\<newline>\<newline># a\<newline>\<newline>''))
        = withoutLineFeeds (str ''\<newline>\<newline># a\<newline>\<newline>'')"
    by (elim conjE)
  from T have c3: "textLines (callback defaultOptions (str ''\<newline>\<newline># a\<newline>\<newline>''))
        = textLines (str ''\<newline>\<newline># a\<newline>\<newline>'')"
    by (elim conjE)
  from T have c4: "\<not> (\<exists>k g rest. callback defaultOptions (str ''\<newline>\<newline># a\<newline>\<newline>'')
          = replicate (Suc k) 0x0A @ g @ rest \<and> isHeading g)"
    by (elim conjE)
  from T have c5: "\<not> (\<exists>pre g k. callback defaultOptions (str ''\<newline>\<newline># a\<newline>\<newline>'')
          = pre @ g @ replicate (Suc k) 0x0A \<and> isHeading g)"
    by (elim conjE)
  from T have a6: "\<forall>k g rest. isHeading g
          \<longrightarrow> replace (replicate k 0x0A @ g @ rest) beforeFirstHeading [Ref 1] = g @ rest"
    by (elim conjE)
  from T have a7: "\<forall>pre g k. isHeading g \<and> last g \<noteq> 0x0A
          \<longrightarrow> replace (pre @ g @ replicate k 0x0A) afterLastHeading [Ref 1] = pre @ g"
    by (elim conjE)
  from T have a8: "\<forall>t. t = [] \<or> last t \<noteq> 0x0A \<longrightarrow> replace t afterLastHeading [Ref 1] = t"
    by (elim conjE)
  from a6[rule_format, OF h, of 2 "str ''\<newline>x''"]
  have c6: "replace (replicate 2 0x0A @ str ''# a'' @ str ''\<newline>x'') beforeFirstHeading [Ref 1]
        = str ''# a'' @ str ''\<newline>x''" .
  from a7[rule_format, OF conjI[OF h l], of "str ''x\<newline>''" 2]
  have c7: "replace (str ''x\<newline>'' @ str ''# a'' @ replicate 2 0x0A) afterLastHeading [Ref 1]
        = str ''x\<newline>'' @ str ''# a''" .
  from a8[rule_format, OF disjI2[OF l]]
  have c8: "replace (str ''# a'') afterLastHeading [Ref 1] = str ''# a''" .
  from e c1 c2 c3 c4 c5 h l c6 c7 c8 show ?thesis by (intro conjI)
qed

text \<open>
  C4. Whatever the options, the rewrites keep the lines of the text, one by one and in
  order, apart from the empty ones: they add and remove line feeds between lines and
  touch nothing inside a line. So the text has as many heading lines after the rewrites
  as before. A line ends where the patterns of the rule end one, at a line terminator,
  and a heading line is a line that the pattern \<^verbatim>\<open>#+\s.*\<close> reads as a heading from its
  first to its last character. The masking engine may be any that hands some masked text
  to the callback and restores what the callback returns.
\<close>

theorem heading_lines_kept:
  assumes engine: "\<forall>f. ign [code, yaml, link, wikiLink, tag] text f = restore (f masked)"
  shows "apply_rule ign text options = restore (callback options masked)
    \<and> textLines (callback options masked) = textLines masked
    \<and> length (filter isHeading (textLines (callback options masked)))
        = length (filter isHeading (textLines masked))"
proof (intro conjI)
  from engine show "apply_rule ign text options = restore (callback options masked)"
    by (simp add: apply_rule_def)
next
  show "textLines (callback options masked) = textLines masked"
    by (rule callback_lines)
next
  show "length (filter isHeading (textLines (callback options masked)))
        = length (filter isHeading (textLines masked))"
    by (simp only: callback_lines)
qed

theorem heading_lines_kept_witness:
  "(\<forall>f. ignoreNothing [code, yaml, link, wikiLink, tag] (str ''# a\<newline>\<newline>\<newline># b\<newline>x'') f
        = (\<lambda>x. x) (f (str ''# a\<newline>\<newline>\<newline># b\<newline>x'')))
   \<and> apply_rule ignoreNothing (str ''# a\<newline>\<newline>\<newline># b\<newline>x'') defaultOptions
        = callback defaultOptions (str ''# a\<newline>\<newline>\<newline># b\<newline>x'')
   \<and> textLines (callback defaultOptions (str ''# a\<newline>\<newline>\<newline># b\<newline>x''))
        = textLines (str ''# a\<newline>\<newline>\<newline># b\<newline>x'')
   \<and> length (filter isHeading (textLines (callback defaultOptions (str ''# a\<newline>\<newline>\<newline># b\<newline>x''))))
        = length (filter isHeading (textLines (str ''# a\<newline>\<newline>\<newline># b\<newline>x'')))"
  using heading_lines_kept[of ignoreNothing "str ''# a\<newline>\<newline>\<newline># b\<newline>x''"
      "\<lambda>x. x" "str ''# a\<newline>\<newline>\<newline># b\<newline>x''" defaultOptions]
  by (simp add: ignoreNothing_def)

text \<open>
  C7, at an input where it fails. A blank line may hold whitespace. With
  \<^verbatim>\<open>emptyLineInBlankSections\<close> off, \<^verbatim>\<open>"# a\n \n# b"\<close> has two headings with a blank line,
  a single space, and no content between them; in the result the blank line is still
  there, with an empty line above and below it: the pattern of line 38 reads
  \<^verbatim>\<open>\n\n+\<close> between the headings, and a space between two line feeds ends the run.
\<close>

theorem whitespace_line_between_headings_stays:
  "apply_rule ignoreNothing (str ''# a\<newline> \<newline># b'')
     \<lparr>bottom = True, emptyLineAfterYaml = True, emptyLineInBlankSections = False\<rparr>
     = str ''# a\<newline>\<newline> \<newline>\<newline># b''"
  by code_simp

text \<open>
  C7, for empty lines. With \<^verbatim>\<open>emptyLineInBlankSections\<close> off, and whatever the other
  options, the result of the rewrites has no heading followed by two line feeds or more
  and then a heading: no empty line stands between two headings that follow each other,
  however many headings follow each other. The loop of lines 38 to 40 ends with a text
  that its pattern matches nowhere, and lines 42, 43 and 46 bring no such place back.
  The headings are not merged: the lines of the result are the lines of the masked text,
  and the result is the masked text with line feeds added and removed. A heading is what
  the pattern \<^verbatim>\<open>#+\s.*\<close> reads as one. The masking engine may be any that hands some
  masked text to the callback and restores what the callback returns.
\<close>

theorem no_empty_line_in_blank_sections:
  assumes engine: "\<forall>f. ign [code, yaml, link, wikiLink, tag] text f = restore (f masked)"
    and off: "\<not> emptyLineInBlankSections options"
  shows "apply_rule ign text options = restore (callback options masked)
    \<and> \<not> (\<exists>pre g1 k g2 post.
            callback options masked = pre @ g1 @ replicate (Suc (Suc k)) 0x0A @ g2 @ post
            \<and> isHeading g1 \<and> isHeading g2)
    \<and> textLines (callback options masked) = textLines masked
    \<and> withoutLineFeeds (callback options masked) = withoutLineFeeds masked
    \<and> (\<forall>t. \<not> match (removeBlankLinesBetweenHeadings t) betweenHeadings)"
proof (intro conjI)
  from engine show "apply_rule ign text options = restore (callback options masked)"
    by (simp add: apply_rule_def)
next
  show "\<not> (\<exists>pre g1 k g2 post.
            callback options masked = pre @ g1 @ replicate (Suc (Suc k)) 0x0A @ g2 @ post
            \<and> isHeading g1 \<and> isHeading g2)"
  proof
    assume "\<exists>pre g1 k g2 post.
            callback options masked = pre @ g1 @ replicate (Suc (Suc k)) 0x0A @ g2 @ post
            \<and> isHeading g1 \<and> isHeading g2"
    then obtain pre g1 k g2 post
      where "callback options masked = pre @ g1 @ replicate (Suc (Suc k)) 0x0A @ g2 @ post"
        "isHeading g1" "isHeading g2"
      by blast
    then have "hasSection (callback options masked)"
      by (rule blankSection_hasSection)
    with callback_no_section[OF off, of masked] show False by simp
  qed
next
  show "textLines (callback options masked) = textLines masked"
    by (rule callback_lines)
next
  show "withoutLineFeeds (callback options masked) = withoutLineFeeds masked"
    by (rule callback_withoutLineFeeds)
next
  show "\<forall>t. \<not> match (removeBlankLinesBetweenHeadings t) betweenHeadings"
    using loop_exit by blast
qed

theorem no_empty_line_in_blank_sections_witness:
  "(\<forall>f. ignoreNothing [code, yaml, link, wikiLink, tag]
          (str ''# a\<newline>\<newline>\<newline># b\<newline>\<newline># c\<newline>x'') f
        = (\<lambda>x. x) (f (str ''# a\<newline>\<newline>\<newline># b\<newline>\<newline># c\<newline>x'')))
   \<and> \<not> emptyLineInBlankSections
          \<lparr>bottom = True, emptyLineAfterYaml = True, emptyLineInBlankSections = False\<rparr>
   \<and> apply_rule ignoreNothing (str ''# a\<newline>\<newline>\<newline># b\<newline>\<newline># c\<newline>x'')
          \<lparr>bottom = True, emptyLineAfterYaml = True, emptyLineInBlankSections = False\<rparr>
        = callback \<lparr>bottom = True, emptyLineAfterYaml = True, emptyLineInBlankSections = False\<rparr>
            (str ''# a\<newline>\<newline>\<newline># b\<newline>\<newline># c\<newline>x'')
   \<and> \<not> (\<exists>pre g1 k g2 post.
          callback \<lparr>bottom = True, emptyLineAfterYaml = True, emptyLineInBlankSections = False\<rparr>
            (str ''# a\<newline>\<newline>\<newline># b\<newline>\<newline># c\<newline>x'')
          = pre @ g1 @ replicate (Suc (Suc k)) 0x0A @ g2 @ post
          \<and> isHeading g1 \<and> isHeading g2)
   \<and> textLines (callback \<lparr>bottom = True, emptyLineAfterYaml = True, emptyLineInBlankSections = False\<rparr>
          (str ''# a\<newline>\<newline>\<newline># b\<newline>\<newline># c\<newline>x''))
        = textLines (str ''# a\<newline>\<newline>\<newline># b\<newline>\<newline># c\<newline>x'')
   \<and> callback \<lparr>bottom = True, emptyLineAfterYaml = True, emptyLineInBlankSections = False\<rparr>
          (str ''# a\<newline>\<newline>\<newline># b\<newline>\<newline># c\<newline>x'')
        = str ''# a\<newline># b\<newline># c\<newline>\<newline>x''"
proof -
  let ?T = "str ''# a\<newline>\<newline>\<newline># b\<newline>\<newline># c\<newline>x''"
  let ?O = "\<lparr>bottom = True, emptyLineAfterYaml = True, emptyLineInBlankSections = False\<rparr>"
  have e: "\<forall>f. ignoreNothing [code, yaml, link, wikiLink, tag] ?T f = (\<lambda>x. x) (f ?T)"
    by (simp add: ignoreNothing_def)
  have off: "\<not> emptyLineInBlankSections ?O" by simp
  have v: "callback ?O ?T = str ''# a\<newline># b\<newline># c\<newline>\<newline>x''" by code_simp
  note T = no_empty_line_in_blank_sections[of ignoreNothing ?T "\<lambda>x. x" ?T ?O, OF e off]
  from T have c1: "apply_rule ignoreNothing ?T ?O = callback ?O ?T"
    by (elim conjE)
  from T have c2: "\<not> (\<exists>pre g1 k g2 post.
          callback ?O ?T = pre @ g1 @ replicate (Suc (Suc k)) 0x0A @ g2 @ post
          \<and> isHeading g1 \<and> isHeading g2)"
    by (elim conjE)
  from T have c3: "textLines (callback ?O ?T) = textLines ?T"
    by (elim conjE)
  from e off c1 c2 c3 v show ?thesis by (intro conjI)
qed




end
